theory Spec2Isabelle
  imports Complex_Main "HOL-Library.AList" "HOL-Library.Signed_Division" "HOL-Library.Sublist"
begin

section \<open>Anti-abuse engine: sliding window, co-voting graph, scores\<close>

text \<open>
  The development embeds \<^verbatim>\<open>AntiAbuseEngine.h\<close> and \<^verbatim>\<open>AntiAbuseEngine.cpp\<close>.

  Conventions of the embedding.
  \<^item> A computed \<^verbatim>\<open>double\<close> is a value of the type \<open>dbl\<close> below: a real number,
    an infinity or NaN, with the IEEE 754 results of a division by zero and of the
    operations on infinities. Rounding, overflow of a finite result and the sign of a zero
    are not represented (a zero divisor is \<open>+0.0\<close>). A \<^verbatim>\<open>double\<close> whose computation
    divides only by a guarded, non-zero divisor is a \<^typ>\<open>real\<close>. The thresholds that
    the caller passes are finite: they are reals.
  \<^item> The \<^verbatim>\<open>int\<close> accumulators of the collusion metrics are 32-bit: an addition that
    overflows is undefined behaviour, which the model reports as \<open>None\<close>; the
    conversion of an unsigned product to \<^verbatim>\<open>int\<close> wraps modulo \<open>2^32\<close>. The stored
    co-vote counts and the sizes of the containers are unbounded: they stay below
    \<open>2^31\<close> as long as fewer than \<open>2^31\<close> votes are recorded.
  \<^item> A \<^verbatim>\<open>system_clock::time_point\<close> is the \<^typ>\<open>int\<close> number of clock ticks since
    the epoch.
  \<^item> A \<^verbatim>\<open>std::unordered_map\<close> that is only looked up is a map \<open>string \<rightharpoonup> 'v\<close>.
    The adjacency structure, which the code also iterates over, is an association list;
    the order of that list carries no meaning. The order in which a hash table
    enumerates its keys is not determined by the source (it depends on the hash function
    and on the history of the table): the functions that iterate take it as an argument,
    the enumeration \<open>ord\<close>. An \<^verbatim>\<open>unordered_set\<close> of voters is a list that
    \<^verbatim>\<open>insert\<close> extends only by a new element; the co-vote counts do not depend on
    its order.
\<close>

subsection \<open>Values of type double\<close>

datatype dbl = Fin real | PInf | NInf | NaN

fun dneg :: "dbl \<Rightarrow> dbl" where
  "dneg (Fin a) = Fin (- a)"
| "dneg PInf = NInf"
| "dneg NInf = PInf"
| "dneg NaN = NaN"

fun dadd :: "dbl \<Rightarrow> dbl \<Rightarrow> dbl" where
  "dadd (Fin a) (Fin b) = Fin (a + b)"
| "dadd (Fin a) PInf = PInf"
| "dadd (Fin a) NInf = NInf"
| "dadd PInf (Fin b) = PInf"
| "dadd PInf PInf = PInf"
| "dadd PInf NInf = NaN"
| "dadd NInf (Fin b) = NInf"
| "dadd NInf NInf = NInf"
| "dadd NInf PInf = NaN"
| "dadd NaN y = NaN"
| "dadd x NaN = NaN"

definition dsub :: "dbl \<Rightarrow> dbl \<Rightarrow> dbl" where
  "dsub x y = dadd x (dneg y)"

text \<open>The product of a finite value and an infinity: the sign rule, NaN for zero.\<close>

definition signedInf :: "real \<Rightarrow> dbl" where
  "signedInf a = (if a > 0 then PInf else if a < 0 then NInf else NaN)"

fun dmul :: "dbl \<Rightarrow> dbl \<Rightarrow> dbl" where
  "dmul (Fin a) (Fin b) = Fin (a * b)"
| "dmul (Fin a) PInf = signedInf a"
| "dmul (Fin a) NInf = signedInf (- a)"
| "dmul PInf (Fin b) = signedInf b"
| "dmul NInf (Fin b) = signedInf (- b)"
| "dmul PInf PInf = PInf"
| "dmul PInf NInf = NInf"
| "dmul NInf PInf = NInf"
| "dmul NInf NInf = PInf"
| "dmul NaN y = NaN"
| "dmul x NaN = NaN"

text \<open>Division: a finite non-zero value over zero is an infinity of its sign, zero over
  zero is NaN, an infinity over a finite value keeps or flips its sign.\<close>

fun ddiv :: "dbl \<Rightarrow> dbl \<Rightarrow> dbl" where
  "ddiv (Fin a) (Fin b) = (if b \<noteq> 0 then Fin (a / b) else signedInf a)"
| "ddiv (Fin a) PInf = Fin 0"
| "ddiv (Fin a) NInf = Fin 0"
| "ddiv PInf (Fin b) = (if b < 0 then NInf else PInf)"
| "ddiv NInf (Fin b) = (if b < 0 then PInf else NInf)"
| "ddiv PInf PInf = NaN"
| "ddiv PInf NInf = NaN"
| "ddiv NInf PInf = NaN"
| "ddiv NInf NInf = NaN"
| "ddiv NaN y = NaN"
| "ddiv x NaN = NaN"

text \<open>\<^verbatim>\<open>x < y\<close>: false when an operand is NaN.\<close>

fun dless :: "dbl \<Rightarrow> dbl \<Rightarrow> bool" where
  "dless (Fin a) (Fin b) = (a < b)"
| "dless (Fin a) PInf = True"
| "dless NInf (Fin b) = True"
| "dless NInf PInf = True"
| "dless x y = False"

text \<open>\<^verbatim>\<open>std::min(a, b)\<close> is \<^verbatim>\<open>(b < a) ? b : a\<close>: with a NaN second argument it
  returns the first.\<close>

definition dmin :: "dbl \<Rightarrow> dbl \<Rightarrow> dbl" where
  "dmin a b = (if dless b a then b else a)"

subsection \<open>SlidingWindow\<close>

definition ticksPerSecond :: int where
  \<comment> \<open>\<^verbatim>\<open>system_clock::period\<close>: nanoseconds (libstdc++).\<close>
  "ticksPerSecond = 1000000000"

definition ticksPerMs :: int where
  "ticksPerMs = 1000000"

record SlidingWindow =
  timestamps :: "int list"
  windowDuration :: int  \<comment> \<open>\<^verbatim>\<open>std::chrono::seconds\<close>\<close>

definition newSlidingWindow :: "int \<Rightarrow> SlidingWindow" where
  "newSlidingWindow seconds = \<lparr>timestamps = [], windowDuration = seconds\<rparr>"

definition cleanup :: "SlidingWindow \<Rightarrow> int \<Rightarrow> SlidingWindow" where
  "cleanup w currentTime =
     (let cutoff = currentTime - windowDuration w * ticksPerSecond
      in w\<lparr>timestamps := dropWhile (\<lambda>front. front < cutoff) (timestamps w)\<rparr>)"

definition addEvent :: "SlidingWindow \<Rightarrow> int \<Rightarrow> SlidingWindow" where
  "addEvent w timestamp = cleanup (w\<lparr>timestamps := timestamps w @ [timestamp]\<rparr>) timestamp"

text \<open>\<^verbatim>\<open>(timestamps.size() / seconds) * 60.0\<close>: with a window of zero seconds the
  quotient is \<open>+\<infinity>\<close>.\<close>

definition getRate :: "SlidingWindow \<Rightarrow> dbl" where
  "getRate w =
     (if timestamps w = [] then Fin 0
      else dmul (ddiv (Fin (real (length (timestamps w)))) (Fin (real_of_int (windowDuration w))))
             (Fin 60))"

text \<open>\<^verbatim>\<open>duration_cast<milliseconds>\<close> truncates towards zero.\<close>

fun totalGapMs :: "int list \<Rightarrow> int" where
  "totalGapMs (a # b # ts) = ((b - a) sdiv ticksPerMs) + totalGapMs (b # ts)"
| "totalGapMs _ = 0"

definition getAverageGapMs :: "SlidingWindow \<Rightarrow> real" where
  "getAverageGapMs w =
     (if length (timestamps w) < 2 then 0
      else real_of_int (totalGapMs (timestamps w)) / real (length (timestamps w) - 1))"

text \<open>The window after a sequence of \<^verbatim>\<open>addEvent\<close> calls on a fresh window.\<close>

definition addEvents :: "int \<Rightarrow> int list \<Rightarrow> SlidingWindow" where
  "addEvents seconds ts = foldl addEvent (newSlidingWindow seconds) ts"

subsection \<open>CoVotingGraph\<close>

type_synonym adjacency_t = "(string \<times> (string \<times> int) list) list"

record CoVotingGraph =
  adjacency :: adjacency_t
  proposalVoters :: "string \<rightharpoonup> string list"

definition emptyGraph :: CoVotingGraph where
  "emptyGraph = \<lparr>adjacency = [], proposalVoters = Map.empty\<rparr>"

text \<open>\<^verbatim>\<open>adjacency[a][b]++\<close>: both \<^verbatim>\<open>operator[]\<close> create the missing entry
  (an empty row, a zero count).\<close>

definition increment :: "adjacency_t \<Rightarrow> string \<Rightarrow> string \<Rightarrow> adjacency_t" where
  "increment adj a b =
     (let row = (case map_of adj a of None \<Rightarrow> [] | Some r \<Rightarrow> r);
          c = (case map_of row b of None \<Rightarrow> 0 | Some c \<Rightarrow> c)
      in AList.update a (AList.update b (c + 1) row) adj)"

definition set_insert :: "string \<Rightarrow> string list \<Rightarrow> string list" where
  "set_insert u vs = (if u \<in> set vs then vs else vs @ [u])"

definition addVoteStep :: "string \<Rightarrow> adjacency_t \<Rightarrow> string \<Rightarrow> adjacency_t" where
  "addVoteStep userId adj otherUser =
     (if otherUser \<noteq> userId
      then increment (increment adj userId otherUser) otherUser userId
      else adj)"

definition addVote :: "CoVotingGraph \<Rightarrow> string \<Rightarrow> string \<Rightarrow> CoVotingGraph" where
  "addVote g userId proposalId =
     (let voters = set_insert userId
                     (case proposalVoters g proposalId of None \<Rightarrow> [] | Some vs \<Rightarrow> vs)
      in \<lparr>adjacency = foldl (addVoteStep userId) (adjacency g) voters,
          proposalVoters = (proposalVoters g)(proposalId \<mapsto> voters)\<rparr>)"

definition getCoVoteCount :: "CoVotingGraph \<Rightarrow> string \<Rightarrow> string \<Rightarrow> int" where
  "getCoVoteCount g user1 user2 =
     (case map_of (adjacency g) user1 of
        None \<Rightarrow> 0
      | Some row \<Rightarrow> (case map_of row user2 of None \<Rightarrow> 0 | Some c \<Rightarrow> c))"

text \<open>The graph after a sequence of \<^verbatim>\<open>addVote(user, proposal)\<close> calls on an empty graph.\<close>

definition addVotes :: "(string \<times> string) list \<Rightarrow> CoVotingGraph" where
  "addVotes vs = foldl (\<lambda>g (u, p). addVote g u p) emptyGraph vs"


text \<open>The stored weight of the directed entry \<open>(x, y)\<close>, as \<^verbatim>\<open>getCoVoteCount\<close> reads it.\<close>

definition weight :: "adjacency_t \<Rightarrow> string \<Rightarrow> string \<Rightarrow> int" where
  "weight adj x y =
     (case map_of adj x of
        None \<Rightarrow> 0
      | Some row \<Rightarrow> (case map_of row y of None \<Rightarrow> 0 | Some c \<Rightarrow> c))"

subsection \<open>detectCommunities\<close>

text \<open>
  Both loops of \<^verbatim>\<open>detectCommunities\<close> are range-based \<^verbatim>\<open>for\<close> loops over an
  \<^verbatim>\<open>unordered_map\<close> keyed by user. An enumeration gives the order in which they meet
  the keys: those of \<^verbatim>\<open>adjacency\<close>, and those of the row of each user.
\<close>

record enumeration =
  keyOrder :: "string list"
  rowOrder :: "string \<Rightarrow> string list"

text \<open>
  The inner \<^verbatim>\<open>for (neighborPair : it->second)\<close> of the breadth-first search: a
  neighbour that is not yet visited and whose count reaches \<^verbatim>\<open>minCoVotes\<close> is marked
  and queued.
\<close>

definition visitNeighbor ::
  "int \<Rightarrow> (string \<times> int) list \<Rightarrow> string set \<times> string list \<Rightarrow> string \<Rightarrow> string set \<times> string list" where
  "visitNeighbor minCoVotes row vq neighbor =
     (case vq of (visited, queue) \<Rightarrow>
        (case map_of row neighbor of
           None \<Rightarrow> (visited, queue)
         | Some coVotes \<Rightarrow>
             if neighbor \<notin> visited \<and> coVotes \<ge> minCoVotes
             then (insert neighbor visited, queue @ [neighbor])
             else (visited, queue)))"

definition visitNeighbors ::
  "(string \<Rightarrow> string list) \<Rightarrow> int \<Rightarrow> adjacency_t \<Rightarrow> string
     \<Rightarrow> string set \<times> string list \<Rightarrow> string set \<times> string list" where
  "visitNeighbors ro minCoVotes adj current vq =
     (case map_of adj current of
        None \<Rightarrow> vq
      | Some row \<Rightarrow> foldl (visitNeighbor minCoVotes row) vq (ro current))"

text \<open>Every user that occurs as a neighbour: the bound of the search.\<close>

definition users_of :: "adjacency_t \<Rightarrow> string set" where
  "users_of adj = (\<Union>(k, row) \<in> set adj. fst ` set row)"

lemma finite_users_of: "finite (users_of adj)"
  by (auto simp: users_of_def)

lemma foldl_visitNeighbor:
  "foldl (visitNeighbor m row) (visited, queue) ks = (visited', queue') \<Longrightarrow>
     visited \<subseteq> visited' \<and> visited' \<subseteq> visited \<union> fst ` set row \<and>
     (visited' = visited \<longrightarrow> queue' = queue)"
proof (induction ks arbitrary: visited queue)
  case Nil then show ?case by simp
next
  case (Cons k ks)
  obtain v1 q1 where s: "visitNeighbor m row (visited, queue) k = (v1, q1)" by force
  from Cons.prems have f: "foldl (visitNeighbor m row) (v1, q1) ks = (visited', queue')"
    by (simp add: s)
  note ih = Cons.IH[OF f]
  have "k \<in> fst ` set row" if "map_of row k = Some c" for c
    using map_of_SomeD[OF that] by force
  with s have "visited \<subseteq> v1 \<and> v1 \<subseteq> visited \<union> fst ` set row \<and> (v1 = visited \<longrightarrow> q1 = queue)"
    by (auto simp: visitNeighbor_def split: option.splits if_splits)
  with ih show ?case by auto
qed

lemma visitNeighbors_props:
  assumes "visitNeighbors ro m adj current (visited, queue) = (visited', queue')"
  shows "visited \<subseteq> visited'" "visited' \<subseteq> visited \<union> users_of adj" "visited' = visited \<Longrightarrow> queue' = queue"
proof -
  show "visited \<subseteq> visited'" using assms foldl_visitNeighbor
    by (fastforce simp: visitNeighbors_def split: option.splits)
  show "visited' = visited \<Longrightarrow> queue' = queue" using assms foldl_visitNeighbor
    by (fastforce simp: visitNeighbors_def split: option.splits)
  show "visited' \<subseteq> visited \<union> users_of adj"
  proof (cases "map_of adj current")
    case None then show ?thesis using assms by (simp add: visitNeighbors_def)
  next
    case (Some row)
    then have "(current, row) \<in> set adj" by (rule map_of_SomeD)
    then have "fst ` set row \<subseteq> users_of adj" by (auto simp: users_of_def)
    moreover have "visited' \<subseteq> visited \<union> fst ` set row"
      using assms Some foldl_visitNeighbor[of m row visited queue "ro current" visited' queue']
      by (simp add: visitNeighbors_def)
    ultimately show ?thesis by blast
  qed
qed

text \<open>The \<^verbatim>\<open>while (!queue.empty())\<close> loop. It ends because every pass either marks a new
  user of the graph or shortens the queue.\<close>

function bfs ::
  "(string \<Rightarrow> string list) \<Rightarrow> int \<Rightarrow> adjacency_t \<Rightarrow> string list \<Rightarrow> string set \<Rightarrow> string list
     \<Rightarrow> string list \<times> string set" where
  "bfs ro minCoVotes adj [] visited community = (community, visited)"
| "bfs ro minCoVotes adj (current # queue) visited community =
     (let vq = visitNeighbors ro minCoVotes adj current (visited, queue)
      in bfs ro minCoVotes adj (snd vq) (fst vq) (community @ [current]))"
  by pat_completeness auto
termination
proof (relation "inv_image (less_than <*lex*> less_than)
         (\<lambda>(ro, m, adj, queue, visited, community). (card (users_of adj - visited), length queue))")
  show "wf (inv_image (less_than <*lex*> less_than)
         (\<lambda>(ro, m, adj, queue, visited, community). (card (users_of adj - visited), length queue)))"
    by (intro wf_inv_image wf_lex_prod wf_less_than)
next
  fix ro :: "string \<Rightarrow> string list"
  fix minCoVotes :: int and adj :: adjacency_t and current queue community vq
  fix visited :: "string set"
  assume vq: "vq = visitNeighbors ro minCoVotes adj current (visited, queue)"
  obtain v' q' where e: "visitNeighbors ro minCoVotes adj current (visited, queue) = (v', q')" by force
  note p = visitNeighbors_props[OF e]
  show "((ro, minCoVotes, adj, snd vq, fst vq, community @ [current]),
         (ro, minCoVotes, adj, current # queue, visited, community))
         \<in> inv_image (less_than <*lex*> less_than)
         (\<lambda>(ro, m, adj, queue, visited, community). (card (users_of adj - visited), length queue))"
  proof (cases "v' = visited")
    case True
    then show ?thesis using p(3) vq e by simp
  next
    case False
    with p(1,2) have "users_of adj - v' \<subset> users_of adj - visited" by blast
    then have "card (users_of adj - v') < card (users_of adj - visited)"
      by (intro psubset_card_mono) (auto simp: finite_users_of)
    then show ?thesis using vq e by simp
  qed
qed

text \<open>The outer \<^verbatim>\<open>for (pair1 : adjacency)\<close> loop over the enumerated keys.\<close>

fun components ::
  "(string \<Rightarrow> string list) \<Rightarrow> int \<Rightarrow> adjacency_t \<Rightarrow> string list \<Rightarrow> string set
     \<Rightarrow> string list list \<Rightarrow> string list list" where
  "components ro minCoVotes adj [] visited communities = communities"
| "components ro minCoVotes adj (user # rest) visited communities =
     (if user \<in> visited then components ro minCoVotes adj rest visited communities
      else (case bfs ro minCoVotes adj [user] (insert user visited) [] of
              (community, visited') \<Rightarrow>
                components ro minCoVotes adj rest visited'
                  (if length community \<ge> 2 then communities @ [community] else communities)))"

text \<open>\<^verbatim>\<open>detectCommunities\<close> reads the graph and assigns none of its members.\<close>

definition detectCommunities ::
  "enumeration \<Rightarrow> CoVotingGraph \<Rightarrow> int \<Rightarrow> string list list" where
  "detectCommunities ord g minCoVotes =
     components (rowOrder ord) minCoVotes (adjacency g) (keyOrder ord) {} []"


subsection \<open>Result structures\<close>

text \<open>
  The fields \<^verbatim>\<open>reason\<close> and \<^verbatim>\<open>description\<close> (text formatted through a
  \<^verbatim>\<open>stringstream\<close>) and the wall-clock \<^verbatim>\<open>timestamp\<close> of an alert are not modelled;
  nothing reads them back. A field whose name another structure already uses carries a prefix.
\<close>

record VoteEvent =
  voteId :: string
  userId :: string
  proposalId :: string
  timestamp :: int
  ipHash :: string
  deviceHash :: string

record BotDetectionResult =
  bot_userId :: string
  botLikelihood :: dbl
  votingVelocity :: dbl
  avgInterVoteGapMs :: real
  deviceDiversity :: int
  ipDiversity :: int
  isSuspicious :: bool

definition defaultBotDetectionResult :: BotDetectionResult where
  "defaultBotDetectionResult =
     \<lparr>bot_userId = [], botLikelihood = Fin 0, votingVelocity = Fin 0, avgInterVoteGapMs = 0,
      deviceDiversity = 0, ipDiversity = 0, isSuspicious = False\<rparr>"

record CollusionDetectionResult =
  userGroup :: "string list"
  collusionScore :: real
  coVoteCount :: int
  coVoteRate :: real
  group_isSuspicious :: bool

record ThreatAlert =
  alertId :: string
  alertType :: string
  severity :: dbl
  involvedUsers :: "string list"
  resolved :: bool

record UserCredibilityScore =
  score_userId :: string
  trustScore :: dbl
  accountAgeScore :: real
  deviceDiversityScore :: real
  majorityAgreementScore :: real
  verificationScore :: real
  score_botLikelihood :: dbl
  score_collusionScore :: real
  consistencyScore :: real
  reportScore :: real

subsection \<open>AntiAbuseEngine\<close>

text \<open>
  \<^verbatim>\<open>alertCounter\<close> is the function-local \<^verbatim>\<open>static int\<close> of
  \<^verbatim>\<open>generateThreatAlert\<close>: no operation of the engine resets it. The engines of
  one process share it; the model follows one engine, which starts it at 0.
\<close>

record AntiAbuseEngine =
  userVoteHistory :: "string \<rightharpoonup> VoteEvent list"
  userVelocityWindows :: "string \<rightharpoonup> SlidingWindow"
  userIPs :: "string \<rightharpoonup> string list"
  userDevices :: "string \<rightharpoonup> string list"
  ipToUsers :: "string \<rightharpoonup> string list"
  deviceToUsers :: "string \<rightharpoonup> string list"
  coVotingGraph :: CoVotingGraph
  botDetectionCache :: "string \<rightharpoonup> BotDetectionResult"
  collusionDetectionCache :: "CollusionDetectionResult list"
  userCredibilityScores :: "string \<rightharpoonup> UserCredibilityScore"
  threatAlerts :: "ThreatAlert list"
  suspiciousUsers :: "string \<rightharpoonup> bool"
  velocityThreshold :: real
  deltaThresholdMs :: real
  minCoVotesForCollusion :: int
  collusionThreshold :: real
  botLikelihoodThreshold :: real
  velocityWindowSeconds :: int
  alertCounter :: nat

definition newAntiAbuseEngine :: "real \<Rightarrow> real \<Rightarrow> int \<Rightarrow> AntiAbuseEngine" where
  "newAntiAbuseEngine velThreshold deltaThreshold windowSeconds =
     \<lparr>userVoteHistory = Map.empty, userVelocityWindows = Map.empty,
      userIPs = Map.empty, userDevices = Map.empty,
      ipToUsers = Map.empty, deviceToUsers = Map.empty,
      coVotingGraph = emptyGraph,
      botDetectionCache = Map.empty, collusionDetectionCache = [],
      userCredibilityScores = Map.empty,
      threatAlerts = [], suspiciousUsers = Map.empty,
      velocityThreshold = velThreshold, deltaThresholdMs = deltaThreshold,
      minCoVotesForCollusion = 5, collusionThreshold = 0.7, botLikelihoodThreshold = 0.7,
      velocityWindowSeconds = windowSeconds, alertCounter = 0\<rparr>"

text \<open>\<^verbatim>\<open>m[k]\<close> on a map of containers: the value read, and the map with the entry that
  \<^verbatim>\<open>operator[]\<close> creates when the key is missing.\<close>

definition entry :: "(string \<rightharpoonup> 'a list) \<Rightarrow> string \<Rightarrow> 'a list" where
  "entry m k = (case m k of None \<Rightarrow> [] | Some v \<Rightarrow> v)"

definition touch :: "(string \<rightharpoonup> 'a list) \<Rightarrow> string \<Rightarrow> (string \<rightharpoonup> 'a list)" where
  "touch m k = (case m k of None \<Rightarrow> m(k \<mapsto> []) | Some v \<Rightarrow> m)"

text \<open>\<^verbatim>\<open>std::to_string\<close> of a non-negative count.\<close>

fun to_string :: "nat \<Rightarrow> string" where
  "to_string n =
     (if n < 10 then [char_of (48 + n)]
      else to_string (n div 10) @ [char_of (48 + n mod 10)])"

declare to_string.simps [simp del]

definition markUserSuspicious :: "AntiAbuseEngine \<Rightarrow> string \<Rightarrow> AntiAbuseEngine" where
  "markUserSuspicious e uid = e\<lparr>suspiciousUsers := (suspiciousUsers e)(uid \<mapsto> True)\<rparr>"

definition isUserSuspicious :: "AntiAbuseEngine \<Rightarrow> string \<Rightarrow> bool" where
  "isUserSuspicious e uid = (case suspiciousUsers e uid of None \<Rightarrow> False | Some b \<Rightarrow> b)"

definition generateThreatAlert ::
  "AntiAbuseEngine \<Rightarrow> string \<Rightarrow> dbl \<Rightarrow> string list \<Rightarrow> AntiAbuseEngine" where
  "generateThreatAlert e type sev users =
     (let counter = alertCounter e + 1;
          alert = \<lparr>alertId = ''ALERT_'' @ to_string counter, alertType = type,
                   severity = sev, involvedUsers = users, resolved = False\<rparr>
      in e\<lparr>alertCounter := counter, threatAlerts := threatAlerts e @ [alert]\<rparr>)"

definition getThreatAlerts :: "AntiAbuseEngine \<Rightarrow> bool \<Rightarrow> ThreatAlert list" where
  "getThreatAlerts e unresolvedOnly =
     (if \<not> unresolvedOnly then threatAlerts e
      else filter (\<lambda>alert. \<not> resolved alert) (threatAlerts e))"



subsection \<open>Bot detection\<close>

definition calculateVotingVelocity :: "AntiAbuseEngine \<Rightarrow> string \<Rightarrow> dbl" where
  "calculateVotingVelocity e uid =
     (case userVelocityWindows e uid of Some w \<Rightarrow> getRate w | None \<Rightarrow> Fin 0)"

definition calculateAvgInterVoteGap :: "AntiAbuseEngine \<Rightarrow> string \<Rightarrow> real" where
  "calculateAvgInterVoteGap e uid =
     (case userVelocityWindows e uid of Some w \<Rightarrow> getAverageGapMs w | None \<Rightarrow> 0)"

definition detectBotBehavior :: "AntiAbuseEngine \<Rightarrow> string \<Rightarrow> bool" where
  "detectBotBehavior e uid =
     (let velocity = calculateVotingVelocity e uid;
          avgGap = calculateAvgInterVoteGap e uid
      in dless (Fin (velocityThreshold e)) velocity \<or> (avgGap > 0 \<and> avgGap < deltaThresholdMs e))"

text \<open>The four local scores of \<^verbatim>\<open>updateBotDetection\<close>.\<close>

definition velocityScore :: "dbl \<Rightarrow> real \<Rightarrow> dbl" where
  "velocityScore velocity velThreshold =
     dmin (Fin 1) (ddiv velocity (dmul (Fin velThreshold) (Fin 2)))"

definition gapScore :: "real \<Rightarrow> real \<Rightarrow> real" where
  "gapScore avgGap deltaThreshold =
     (if avgGap > 0 \<and> avgGap < deltaThreshold then 1 - avgGap / deltaThreshold else 0)"

definition deviceScore :: "int \<Rightarrow> real" where
  "deviceScore devices = (if devices = 1 then 0.3 else 0)"

definition ipScore :: "int \<Rightarrow> real" where
  "ipScore ips = (if ips = 1 then 0.2 else 0)"

text \<open>The local \<^verbatim>\<open>result\<close> of \<^verbatim>\<open>updateBotDetection\<close>.\<close>

definition botResult :: "AntiAbuseEngine \<Rightarrow> string \<Rightarrow> BotDetectionResult" where
  "botResult e uid =
     (let velocity = calculateVotingVelocity e uid;
          avgGap = calculateAvgInterVoteGap e uid;
          devices = int (length (entry (userDevices e) uid));
          ips = int (length (entry (userIPs e) uid))
      in \<lparr>bot_userId = uid,
          botLikelihood =
            dmin (Fin 1)
              (dadd (dadd (dadd (dmul (Fin 0.4) (velocityScore velocity (velocityThreshold e)))
                                (Fin (0.4 * gapScore avgGap (deltaThresholdMs e))))
                          (Fin (deviceScore devices)))
                    (Fin (ipScore ips))),
          votingVelocity = velocity,
          avgInterVoteGapMs = avgGap,
          deviceDiversity = devices,
          ipDiversity = ips,
          isSuspicious = detectBotBehavior e uid\<rparr>)"

text \<open>
  \<^verbatim>\<open>updateBotDetection\<close>: \<^verbatim>\<open>userDevices[userId]\<close> and \<^verbatim>\<open>userIPs[userId]\<close> create
  missing entries, and so does \<^verbatim>\<open>userVoteHistory[userId]\<close>, which the source reads
  only when the device count is 1 (the right operand of \<^verbatim>\<open>&&\<close>).
\<close>

definition updateBotDetection :: "AntiAbuseEngine \<Rightarrow> string \<Rightarrow> AntiAbuseEngine" where
  "updateBotDetection e uid =
     (let result = botResult e uid;
          e1 = e\<lparr>userDevices := touch (userDevices e) uid, userIPs := touch (userIPs e) uid\<rparr>;
          e2 = (if deviceDiversity result = 1
                then e1\<lparr>userVoteHistory := touch (userVoteHistory e1) uid\<rparr> else e1);
          e3 = e2\<lparr>botDetectionCache := (botDetectionCache e2)(uid \<mapsto> result)\<rparr>
      in if isSuspicious result \<and> dless (Fin (botLikelihoodThreshold e3)) (botLikelihood result)
         then markUserSuspicious
                (generateThreatAlert e3 ''bot_detected'' (botLikelihood result) [uid]) uid
         else e3)"

definition detectBot :: "AntiAbuseEngine \<Rightarrow> string \<Rightarrow> BotDetectionResult \<times> AntiAbuseEngine" where
  "detectBot e uid =
     (case botDetectionCache e uid of
        Some cached \<Rightarrow> (cached, e)
      | None \<Rightarrow>
          (let e1 = updateBotDetection e uid
           in case botDetectionCache e1 uid of
                Some r \<Rightarrow> (r, e1)
              | None \<Rightarrow> (defaultBotDetectionResult,
                         e1\<lparr>botDetectionCache :=
                              (botDetectionCache e1)(uid \<mapsto> defaultBotDetectionResult)\<rparr>)))"

subsection \<open>recordVoteEvent\<close>

definition recordVoteEvent ::
  "AntiAbuseEngine \<Rightarrow> string \<Rightarrow> string \<Rightarrow> int \<Rightarrow> string \<Rightarrow> string \<Rightarrow> AntiAbuseEngine" where
  "recordVoteEvent e uid pid ts ip dev =
     (let history = entry (userVoteHistory e) uid;
          event = \<lparr>voteId = ''VOTE_'' @ to_string (length history), userId = uid,
                   proposalId = pid, timestamp = ts, ipHash = ip, deviceHash = dev\<rparr>;
          e1 = e\<lparr>userVoteHistory := (userVoteHistory e)(uid \<mapsto> history @ [event])\<rparr>;
          window = (case userVelocityWindows e1 uid of
                      None \<Rightarrow> newSlidingWindow (velocityWindowSeconds e1)
                    | Some w \<Rightarrow> w);
          e2 = e1\<lparr>userVelocityWindows := (userVelocityWindows e1)(uid \<mapsto> addEvent window ts)\<rparr>;
          e3 = (if ip \<noteq> []
                then e2\<lparr>userIPs := (userIPs e2)(uid \<mapsto> set_insert ip (entry (userIPs e2) uid)),
                        ipToUsers := (ipToUsers e2)(ip \<mapsto> entry (ipToUsers e2) ip @ [uid])\<rparr>
                else e2);
          e4 = (if dev \<noteq> []
                then e3\<lparr>userDevices :=
                          (userDevices e3)(uid \<mapsto> set_insert dev (entry (userDevices e3) uid)),
                        deviceToUsers :=
                          (deviceToUsers e3)(dev \<mapsto> entry (deviceToUsers e3) dev @ [uid])\<rparr>
                else e3);
          e5 = e4\<lparr>coVotingGraph := addVote (coVotingGraph e4) uid pid\<rparr>
      in updateBotDetection e5 uid)"

subsection \<open>Collusion detection\<close>

text \<open>
  The collusion metrics are computed in \<^verbatim>\<open>int\<close>. An addition whose result does not fit
  32 bits is undefined behaviour: \<open>None\<close>. The conversion of the \<^verbatim>\<open>size_t\<close> value
  \<^verbatim>\<open>(size * (size - 1)) / 2\<close> to \<^verbatim>\<open>int\<close> keeps the low 32 bits, read in two's
  complement.
\<close>

definition add_int32 :: "int \<Rightarrow> int \<Rightarrow> int option" where
  "add_int32 a b =
     (if - 2147483648 \<le> a + b \<and> a + b \<le> 2147483647 then Some (a + b) else None)"

definition size_t_mul :: "nat \<Rightarrow> nat \<Rightarrow> nat" where
  "size_t_mul a b = (a * b) mod 18446744073709551616"

definition to_int32 :: "nat \<Rightarrow> int" where
  "to_int32 n =
     (let low = int n mod 4294967296
      in if low < 2147483648 then low else low - 4294967296)"

text \<open>The local \<^verbatim>\<open>maxPossibleEdges\<close> of a community of \<open>n\<close> members.\<close>

definition maxPossibleEdges :: "nat \<Rightarrow> int" where
  "maxPossibleEdges n = to_int32 (size_t_mul n (n - 1) div 2)"

text \<open>A loop whose body can fail.\<close>

fun foldM :: "('a \<Rightarrow> 'b \<Rightarrow> 'a option) \<Rightarrow> 'a \<Rightarrow> 'b list \<Rightarrow> 'a option" where
  "foldM f a [] = Some a"
| "foldM f a (x # xs) = (case f a x of None \<Rightarrow> None | Some a' \<Rightarrow> foldM f a' xs)"

text \<open>The double loop over \<open>i < j\<close>: the running \<^verbatim>\<open>(totalCoVotes, edgeCount)\<close>.\<close>

definition countPair ::
  "CoVotingGraph \<Rightarrow> string \<Rightarrow> int \<times> int \<Rightarrow> string \<Rightarrow> (int \<times> int) option" where
  "countPair g ci acc cj =
     (case acc of (totalCoVotes, edgeCount) \<Rightarrow>
        (let coVotes = getCoVoteCount g ci cj
         in if coVotes > 0
            then (case add_int32 totalCoVotes coVotes of
                    None \<Rightarrow> None
                  | Some newTotal \<Rightarrow>
                      (case add_int32 edgeCount 1 of
                         None \<Rightarrow> None
                       | Some newCount \<Rightarrow> Some (newTotal, newCount)))
            else Some (totalCoVotes, edgeCount)))"

fun communityMetrics ::
  "CoVotingGraph \<Rightarrow> string list \<Rightarrow> int \<times> int \<Rightarrow> (int \<times> int) option" where
  "communityMetrics g [] acc = Some acc"
| "communityMetrics g (ci # rest) acc =
     (case foldM (countPair g ci) acc rest of
        None \<Rightarrow> None
      | Some acc' \<Rightarrow> communityMetrics g rest acc')"

definition collusionResult ::
  "CoVotingGraph \<Rightarrow> real \<Rightarrow> string list \<Rightarrow> CollusionDetectionResult option" where
  "collusionResult g threshold community =
     (case communityMetrics g community (0, 0) of
        None \<Rightarrow> None
      | Some (totalCoVotes, edgeCount) \<Rightarrow>
        (let maxEdges = maxPossibleEdges (length community);
             density = (if maxEdges > 0
                        then real_of_int edgeCount / real_of_int maxEdges else 0);
             avgCoVotes = (if edgeCount > 0
                           then real_of_int totalCoVotes / real_of_int edgeCount else 0);
             score = min 1 (0.5 * density + 0.5 * (avgCoVotes / 20))
         in Some \<lparr>userGroup = community, collusionScore = score, coVoteCount = totalCoVotes,
                  coVoteRate = density, group_isSuspicious = (score > threshold)\<rparr>))"

text \<open>The body of \<^verbatim>\<open>for (community : communities)\<close>.\<close>

definition collusionStep :: "AntiAbuseEngine \<Rightarrow> string list \<Rightarrow> AntiAbuseEngine option" where
  "collusionStep e community =
     (if length community < 2 then Some e
      else
        (case collusionResult (coVotingGraph e) (collusionThreshold e) community of
           None \<Rightarrow> None
         | Some result \<Rightarrow>
            (let e1 = e\<lparr>collusionDetectionCache := collusionDetectionCache e @ [result]\<rparr>
             in if group_isSuspicious result
                then Some (foldl markUserSuspicious
                       (generateThreatAlert e1 ''collusion_detected''
                          (Fin (collusionScore result)) community)
                       community)
                else Some e1)))"

text \<open>\<^verbatim>\<open>updateCollusionDetection\<close>, with the enumeration of the graph's tables at the
  time of the call.\<close>

definition updateCollusionDetection ::
  "enumeration \<Rightarrow> AntiAbuseEngine \<Rightarrow> AntiAbuseEngine option" where
  "updateCollusionDetection ord e =
     (let e0 = e\<lparr>collusionDetectionCache := []\<rparr>;
          communities = detectCommunities ord (coVotingGraph e0) (minCoVotesForCollusion e0)
      in foldM collusionStep e0 communities)"

definition detectCollusion ::
  "enumeration \<Rightarrow> AntiAbuseEngine
     \<Rightarrow> (CollusionDetectionResult list \<times> AntiAbuseEngine) option" where
  "detectCollusion ord e =
     (case updateCollusionDetection ord e of
        None \<Rightarrow> None
      | Some e1 \<Rightarrow> Some (collusionDetectionCache e1, e1))"

subsection \<open>Credibility\<close>

definition calculateAccountAgeScore :: "AntiAbuseEngine \<Rightarrow> string \<Rightarrow> real \<times> AntiAbuseEngine" where
  "calculateAccountAgeScore e uid =
     (let voteCount = int (length (entry (userVoteHistory e) uid))
      in (min 1 (real_of_int voteCount / 50),
          e\<lparr>userVoteHistory := touch (userVoteHistory e) uid\<rparr>))"

definition calculateMajorityAgreementScore :: "AntiAbuseEngine \<Rightarrow> string \<Rightarrow> real" where
  "calculateMajorityAgreementScore e uid = 0.5"

text \<open>The loop over \<^verbatim>\<open>collusionDetectionCache\<close>: the highest score of a group that lists the user.\<close>

definition groupMax :: "string \<Rightarrow> real \<Rightarrow> CollusionDetectionResult \<Rightarrow> real" where
  "groupMax uid acc collusion =
     foldl (\<lambda>acc user. if user = uid then max acc (collusionScore collusion) else acc)
       acc (userGroup collusion)"

definition userCollusionScore :: "AntiAbuseEngine \<Rightarrow> string \<Rightarrow> real" where
  "userCollusionScore e uid = foldl (groupMax uid) 0 (collusionDetectionCache e)"

definition deviceDiversityOf :: "int \<Rightarrow> real" where
  "deviceDiversityOf deviceCount =
     (if deviceCount = 0 then 0.5
      else if deviceCount = 1 then 0.8
      else if deviceCount = 2 then 0.6 else 0.3)"

definition calculateUserCredibility ::
  "AntiAbuseEngine \<Rightarrow> string \<Rightarrow> UserCredibilityScore \<times> AntiAbuseEngine" where
  "calculateUserCredibility e uid =
     (case detectBot e uid of (cachedBot, e1) \<Rightarrow>
      case calculateAccountAgeScore e1 uid of (accountAge, e2) \<Rightarrow>
        (let deviceCount = int (length (entry (userDevices e2) uid));
             e3 = e2\<lparr>userDevices := touch (userDevices e2) uid\<rparr>;
             deviceDiv = deviceDiversityOf deviceCount;
             majority = calculateMajorityAgreementScore e3 uid;
             verification = 0.5;
             collusion = userCollusionScore e3 uid;
             consistency = 0.5;
             report = 1;
             score = \<lparr>score_userId = uid,
                      trustScore =
                        dadd (dadd (dadd (dadd
                          (Fin (0.20 * accountAge + 0.15 * deviceDiv + 0.15 * majority
                                + 0.10 * verification))
                          (dmul (Fin 0.15) (dsub (Fin 1) (botLikelihood cachedBot))))
                          (Fin (0.15 * (1 - collusion))))
                          (Fin (0.05 * consistency)))
                          (Fin (0.05 * report)),
                      accountAgeScore = accountAge,
                      deviceDiversityScore = deviceDiv,
                      majorityAgreementScore = majority,
                      verificationScore = verification,
                      score_botLikelihood = botLikelihood cachedBot,
                      score_collusionScore = collusion,
                      consistencyScore = consistency,
                      reportScore = report\<rparr>
         in (score, e3\<lparr>userCredibilityScores := (userCredibilityScores e3)(uid \<mapsto> score)\<rparr>)))"

definition getUserTrustScore :: "AntiAbuseEngine \<Rightarrow> string \<Rightarrow> dbl \<times> AntiAbuseEngine" where
  "getUserTrustScore e uid =
     (case userCredibilityScores e uid of
        Some cached \<Rightarrow> (trustScore cached, e)
      | None \<Rightarrow> (case calculateUserCredibility e uid of (score, e1) \<Rightarrow> (trustScore score, e1)))"

subsection \<open>Configuration and clearing\<close>



definition clearUser :: "AntiAbuseEngine \<Rightarrow> string \<Rightarrow> AntiAbuseEngine" where
  "clearUser e uid =
     e\<lparr>userVoteHistory := (userVoteHistory e)(uid := None),
       userVelocityWindows := (userVelocityWindows e)(uid := None),
       userIPs := (userIPs e)(uid := None),
       userDevices := (userDevices e)(uid := None),
       botDetectionCache := (botDetectionCache e)(uid := None),
       userCredibilityScores := (userCredibilityScores e)(uid := None),
       suspiciousUsers := (suspiciousUsers e)(uid := None)\<rparr>"

subsection \<open>Reachable engine states\<close>



subsection \<open>Scenarios\<close>

text \<open>A sequence of vote events \<open>(user, proposal)\<close>, all at tick 0 with the default empty
  IP and device hashes.\<close>

definition recordVotes :: "AntiAbuseEngine \<Rightarrow> (string \<times> string) list \<Rightarrow> AntiAbuseEngine" where
  "recordVotes e votes = foldl (\<lambda>e (u, p). recordVoteEvent e u p 0 [] []) e votes"


text \<open>Users a and b vote together on \<open>k\<close> proposals, users b and c on \<open>k\<close> other ones;
  a and c never meet.\<close>

definition pathVotes :: "nat \<Rightarrow> (string \<times> string) list" where
  "pathVotes k =
     concat (map (\<lambda>i. [(''a'', ''p'' @ to_string i), (''b'', ''p'' @ to_string i)]) [0..<k])
     @ concat (map (\<lambda>i. [(''b'', ''q'' @ to_string i), (''c'', ''q'' @ to_string i)]) [0..<k])"

definition pathEngine :: AntiAbuseEngine where
  "pathEngine = recordVotes (newAntiAbuseEngine 30 200 60) (pathVotes 40)"

text \<open>
  The enumerations of the examples are those of libstdc++, whose \<^verbatim>\<open>std::hash\<close> sends
  the keys a, b, c, d to the buckets 1, 9, 10, 1 of a table of 13 buckets: a key that falls
  into an empty bucket is linked in front of all others, a key that falls into an occupied
  bucket at the head of that bucket. In the path graph the keys entered
  \<^verbatim>\<open>adjacency\<close> in the order b, a, c and are enumerated as c, a, b; the row of b
  received a before c and is enumerated as c, a.
\<close>

definition pathOrder :: enumeration where
  "pathOrder =
     \<lparr>keyOrder = [''c'', ''a'', ''b''],
      rowOrder = (\<lambda>u. if u = ''b'' then [''c'', ''a'']
                      else if u = ''a'' \<or> u = ''c'' then [''b''] else [])\<rparr>"

text \<open>Two pairs of co-voters, a with b on one proposal and c with d on another: every row
  holds the one partner. When a and b vote first the keys enter \<^verbatim>\<open>adjacency\<close> in the
  order b, a, d, c and are enumerated as c, d, a, b; when c and d vote first they enter
  in the order d, c, b, a and are enumerated as b, c, a, d.\<close>

definition partner :: "string \<Rightarrow> string list" where
  "partner u =
     (if u = ''a'' then [''b''] else if u = ''b'' then [''a'']
      else if u = ''c'' then [''d''] else if u = ''d'' then [''c''] else [])"

definition pairsOrderAB :: enumeration where
  "pairsOrderAB = \<lparr>keyOrder = [''c'', ''d'', ''a'', ''b''], rowOrder = partner\<rparr>"

definition pairsOrderCD :: enumeration where
  "pairsOrderCD = \<lparr>keyOrder = [''b'', ''c'', ''a'', ''d''], rowOrder = partner\<rparr>"

subsection \<open>The collusion score in the words of the specification\<close>

text \<open>The member pairs \<open>(c\<^sub>i, c\<^sub>j)\<close> with \<open>i < j\<close>, the realized edges among them and the
  sum of their co-vote counts.\<close>

fun memberPairs :: "string list \<Rightarrow> (string \<times> string) list" where
  "memberPairs [] = []"
| "memberPairs (x # xs) = map (Pair x) xs @ memberPairs xs"

definition realizedEdges :: "CoVotingGraph \<Rightarrow> string list \<Rightarrow> nat" where
  "realizedEdges g c = length (filter (\<lambda>(x, y). 0 < getCoVoteCount g x y) (memberPairs c))"

definition totalCoVotes :: "CoVotingGraph \<Rightarrow> string list \<Rightarrow> int" where
  "totalCoVotes g c =
     sum_list (map (\<lambda>(x, y). getCoVoteCount g x y)
                 (filter (\<lambda>(x, y). 0 < getCoVoteCount g x y) (memberPairs c)))"

text \<open>The specification's formula, with the cap on \<open>avgCoVotes / 20\<close> that it states.\<close>

definition specCollusionScore :: "CoVotingGraph \<Rightarrow> string list \<Rightarrow> real" where
  "specCollusionScore g c =
     (let density = real (realizedEdges g c) / real (length c choose 2);
          avgCoVotes = (if realizedEdges g c = 0 then 0
                        else real_of_int (totalCoVotes g c) / real (realizedEdges g c))
      in min 1 (0.5 * density + 0.5 * min 1 (avgCoVotes / 20)))"

subsection \<open>Communities as classes of a relation\<close>

text \<open>The edges that the search follows from a user: the entries of the user's row whose
  count reaches \<open>m\<close>.\<close>

definition strong :: "int \<Rightarrow> adjacency_t \<Rightarrow> (string \<times> string) set" where
  "strong m adj = {(x, y). \<exists>row c. map_of adj x = Some row \<and> map_of row y = Some c \<and> m \<le> c}"

text \<open>The users that the search reaches from \<open>u\<close>, and the classes with at least two
  members among those of the users in \<open>U\<close>.\<close>

definition cls :: "int \<Rightarrow> adjacency_t \<Rightarrow> string \<Rightarrow> string set" where
  "cls m adj u = (strong m adj)\<^sup>* `` {u}"

definition big_classes :: "int \<Rightarrow> adjacency_t \<Rightarrow> string set \<Rightarrow> string set set" where
  "big_classes m adj U = {X. \<exists>u \<in> U. X = cls m adj u \<and> 2 \<le> card X}"

text \<open>The same relation read off the co-vote counts: \<open>x\<close> and \<open>y\<close> have at least \<open>m\<close>
  co-votes.\<close>

definition coVoteRel :: "CoVotingGraph \<Rightarrow> int \<Rightarrow> (string \<times> string) set" where
  "coVoteRel g m = {(x, y). m \<le> getCoVoteCount g x y}"

text \<open>An enumeration of a graph lists exactly the keys of \<^verbatim>\<open>adjacency\<close> and, for
  each user, exactly the keys of the user's row.\<close>

definition rowsEnumerated :: "(string \<Rightarrow> string list) \<Rightarrow> adjacency_t \<Rightarrow> bool" where
  "rowsEnumerated ro adj \<longleftrightarrow>
     (\<forall>u row. map_of adj u = Some row \<longrightarrow> set (ro u) = set (map fst row))"

definition enumerates :: "enumeration \<Rightarrow> CoVotingGraph \<Rightarrow> bool" where
  "enumerates ord g \<longleftrightarrow>
     set (keyOrder ord) = set (map fst (adjacency g)) \<and> rowsEnumerated (rowOrder ord) (adjacency g)"

section \<open>Properties\<close>

subsection \<open>Co-vote counts\<close>

lemma getCoVoteCount_weight: "getCoVoteCount g x y = weight (adjacency g) x y"
  by (simp add: getCoVoteCount_def weight_def)

lemma weight_increment:
  "weight (increment adj a b) x y = weight adj x y + (if x = a \<and> y = b then 1 else 0)"
  by (auto simp: weight_def increment_def Let_def update_conv' split: option.splits)

lemma weight_addVoteStep:
  "weight (addVoteStep u adj other) x y =
     weight adj x y + (if other \<noteq> u \<and> x = u \<and> y = other then 1 else 0)
                    + (if other \<noteq> u \<and> x = other \<and> y = u then 1 else 0)"
  by (simp add: addVoteStep_def weight_increment)

lemma weight_foldl:
  "weight (foldl (addVoteStep u) adj vs) x y =
     weight adj x y + (if x = u \<and> y \<noteq> u then int (count_list vs y) else 0)
                    + (if y = u \<and> x \<noteq> u then int (count_list vs x) else 0)"
  by (induction vs arbitrary: adj) (auto simp: weight_addVoteStep)

text \<open>What one \<^verbatim>\<open>addVote(u, p)\<close> does to every weight, \<open>vs\<close> being the voters of \<open>p\<close>
  after the insertion of \<open>u\<close>.\<close>

lemma weight_addVote:
  "getCoVoteCount (addVote g u p) x y =
     getCoVoteCount g x y
       + (if x = u \<and> y \<noteq> u
          then int (count_list (set_insert u (case proposalVoters g p of None \<Rightarrow> [] | Some vs \<Rightarrow> vs)) y)
          else 0)
       + (if y = u \<and> x \<noteq> u
          then int (count_list (set_insert u (case proposalVoters g p of None \<Rightarrow> [] | Some vs \<Rightarrow> vs)) x)
          else 0)"
  by (simp add: getCoVoteCount_weight addVote_def Let_def weight_foldl)

lemma addVote_symmetric:
  assumes "\<And>x y. getCoVoteCount g x y = getCoVoteCount g y x"
  shows "getCoVoteCount (addVote g u p) x y = getCoVoteCount (addVote g u p) y x"
  by (simp add: weight_addVote assms[of x y])

lemma addVotes_snoc: "addVotes (vs @ [(u, p)]) = addVote (addVotes vs) u p"
  by (simp add: addVotes_def)

text \<open>
  \<^bold>\<open>C6\<close>. In every graph state reached by a sequence of \<^verbatim>\<open>addVote\<close> calls from the
  empty graph, the co-vote count of \<open>(u, v)\<close> equals that of \<open>(v, u)\<close>.
\<close>

theorem covote_count_symmetric:
  "getCoVoteCount (addVotes vs) u v = getCoVoteCount (addVotes vs) v u"
proof (induction vs arbitrary: u v rule: rev_induct)
  case Nil
  show ?case by (simp add: addVotes_def emptyGraph_def getCoVoteCount_def)
next
  case (snoc a vs)
  obtain w p where a: "a = (w, p)" by (cases a)
  show ?case unfolding a addVotes_snoc
    by (rule addVote_symmetric) (rule snoc.IH)
qed

text \<open>The voter sets of a reachable graph hold no user twice.\<close>

lemma distinct_set_insert: "distinct vs \<Longrightarrow> distinct (set_insert u vs)"
  by (simp add: set_insert_def)

lemma voters_distinct_addVote:
  assumes "\<And>q ws. proposalVoters g q = Some ws \<Longrightarrow> distinct ws"
    and "proposalVoters (addVote g u p) q = Some ws"
  shows "distinct ws"
proof (cases "q = p")
  case True
  with assms(2) have ws: "ws = set_insert u (case proposalVoters g p of None \<Rightarrow> [] | Some vs \<Rightarrow> vs)"
    by (simp add: addVote_def Let_def)
  show ?thesis unfolding ws
    by (rule distinct_set_insert) (auto split: option.splits dest: assms(1))
next
  case False
  with assms(2) have "proposalVoters g q = Some ws" by (simp add: addVote_def Let_def)
  then show ?thesis by (rule assms(1))
qed

lemma voters_distinct_addVotes: "proposalVoters (addVotes vs) q = Some ws \<Longrightarrow> distinct ws"
proof (induction vs arbitrary: q ws rule: rev_induct)
  case Nil
  then show ?case by (simp add: addVotes_def emptyGraph_def)
next
  case (snoc a vs)
  obtain w p where a: "a = (w, p)" by (cases a)
  from snoc.prems show ?case unfolding a addVotes_snoc
    by (rule voters_distinct_addVote[rotated]) (rule snoc.IH)
qed

lemma count_list_distinct: "distinct vs \<Longrightarrow> count_list vs y = (if y \<in> set vs then 1 else 0)"
  by (induction vs) auto

text \<open>
  \<^bold>\<open>C2\<close> (as the code has it). \<^verbatim>\<open>addVote\<close> has no guard for a user who is already a
  recorded voter: in a reachable graph, a second \<^verbatim>\<open>addVote(u, p)\<close> leaves the voter
  sets as they are, adds 1 to the weight between \<open>u\<close> and every other recorded voter of
  \<open>p\<close>, in both directions, and changes no other weight.
\<close>

theorem duplicate_addVote_weights:
  assumes "proposalVoters (addVotes vs) p = Some ws" and "u \<in> set ws"
  shows "proposalVoters (addVote (addVotes vs) u p) = proposalVoters (addVotes vs)
         \<and> getCoVoteCount (addVote (addVotes vs) u p) x y =
             getCoVoteCount (addVotes vs) x y
               + (if x = u \<and> y \<noteq> u \<and> y \<in> set ws then 1 else 0)
               + (if y = u \<and> x \<noteq> u \<and> x \<in> set ws then 1 else 0)"
proof -
  have v: "proposalVoters (addVote (addVotes vs) u p) = proposalVoters (addVotes vs)"
    using assms by (simp add: addVote_def Let_def set_insert_def fun_upd_idem)
  have "distinct ws" using assms(1) by (rule voters_distinct_addVotes)
  then have "getCoVoteCount (addVote (addVotes vs) u p) x y =
             getCoVoteCount (addVotes vs) x y
               + (if x = u \<and> y \<noteq> u \<and> y \<in> set ws then 1 else 0)
               + (if y = u \<and> x \<noteq> u \<and> x \<in> set ws then 1 else 0)"
    using assms by (simp add: weight_addVote set_insert_def count_list_distinct)
  with v show ?thesis by simp
qed

lemmas graph_eval =
  addVotes_def addVote_def emptyGraph_def set_insert_def addVoteStep_def increment_def
  getCoVoteCount_def Let_def

theorem duplicate_addVote_weights_witness:
  "proposalVoters (addVotes [(''alice'', ''p1''), (''bob'', ''p1'')]) ''p1'' = Some [''alice'', ''bob'']
   \<and> ''bob'' \<in> set [''alice'', ''bob'']
   \<and> getCoVoteCount (addVote (addVotes [(''alice'', ''p1''), (''bob'', ''p1'')]) ''bob'' ''p1'')
        ''alice'' ''bob'' = 2"
proof -
  have v: "proposalVoters (addVotes [(''alice'', ''p1''), (''bob'', ''p1'')]) ''p1''
             = Some [''alice'', ''bob'']"
    by (simp add: graph_eval)
  have m: "''bob'' \<in> set [''alice'', ''bob'']" by simp
  have c: "getCoVoteCount (addVotes [(''alice'', ''p1''), (''bob'', ''p1'')]) ''alice'' ''bob'' = 1"
    by (simp add: graph_eval)
  show ?thesis
    using duplicate_addVote_weights[OF v m, of "''alice''" "''bob''"] v c by simp
qed

text \<open>The claim as stated fails: after alice and bob voted on \<open>p1\<close>, a repeated
  \<^verbatim>\<open>addVote(bob, p1)\<close> raises their co-vote count from 1 to 2.\<close>

theorem duplicate_addVote_counterexample:
  "getCoVoteCount (addVote (addVotes [(''alice'', ''p1''), (''bob'', ''p1'')]) ''bob'' ''p1'')
       ''alice'' ''bob''
     \<noteq> getCoVoteCount (addVotes [(''alice'', ''p1''), (''bob'', ''p1'')]) ''alice'' ''bob''"
  by (simp add: graph_eval)

subsection \<open>Sliding window\<close>

lemma dropWhile_sorted_ge:
  "sorted xs \<Longrightarrow> x \<in> set (dropWhile (\<lambda>front. front < (c::int)) xs) \<Longrightarrow> c \<le> x"
proof (induction xs)
  case Nil
  then show ?case by simp
next
  case (Cons a xs)
  then show ?case by (auto split: if_splits)
qed

lemma addEvent_timestamps:
  "timestamps (addEvent w t) =
     dropWhile (\<lambda>front. front < t - windowDuration w * ticksPerSecond) (timestamps w @ [t])"
  by (simp add: addEvent_def cleanup_def Let_def)

lemma addEvent_windowDuration: "windowDuration (addEvent w t) = windowDuration w"
  by (simp add: addEvent_def cleanup_def Let_def)

lemma addEvents_snoc: "addEvents s (ts @ [t]) = addEvent (addEvents s ts) t"
  by (simp add: addEvents_def)

lemma addEvents_windowDuration: "windowDuration (addEvents s ts) = s"
proof (induction ts rule: rev_induct)
  case Nil
  show ?case by (simp add: addEvents_def newSlidingWindow_def)
next
  case (snoc t ts)
  then show ?case by (simp add: addEvents_snoc addEvent_windowDuration)
qed

text \<open>Fed in time order, the window stays sorted and holds only inserted timestamps.\<close>

lemma addEvents_sorted:
  "sorted ts \<Longrightarrow>
     sorted (timestamps (addEvents s ts)) \<and> set (timestamps (addEvents s ts)) \<subseteq> set ts"
proof (induction ts rule: rev_induct)
  case Nil
  show ?case by (simp add: addEvents_def newSlidingWindow_def)
next
  case (snoc t ts)
  from snoc.prems have sts: "sorted ts" and le: "\<forall>x\<in>set ts. x \<le> t"
    by (auto simp: sorted_append)
  from snoc.IH[OF sts] have s: "sorted (timestamps (addEvents s ts))"
    and sub: "set (timestamps (addEvents s ts)) \<subseteq> set ts" by auto
  have "sorted (timestamps (addEvents s ts) @ [t])"
    using s sub le by (auto simp: sorted_append)
  moreover have "set (dropWhile P (timestamps (addEvents s ts) @ [t])) \<subseteq> set (ts @ [t])" for P
    using set_dropWhileD[of _ P "timestamps (addEvents s ts) @ [t]"] sub by auto
  ultimately show ?case
    by (simp only: addEvents_snoc addEvent_timestamps sorted_dropWhile)
qed

text \<open>
  \<^bold>\<open>C3\<close> (as the code has it). \<^verbatim>\<open>cleanup\<close> pops from the front only, so the property
  needs the timestamps in non-decreasing order: after every insertion of such a sequence
  into a fresh window (the last one at time \<open>now\<close>), no stored timestamp is older than
  \<open>now - windowDuration\<close>.
\<close>

theorem window_in_order_no_stale:
  assumes "sorted (ts @ [now])"
    and "x \<in> set (timestamps (addEvents seconds (ts @ [now])))"
  shows "\<not> x < now - seconds * ticksPerSecond"
proof -
  from assms(1) have sts: "sorted ts" and le: "\<forall>x\<in>set ts. x \<le> now"
    by (auto simp: sorted_append)
  from addEvents_sorted[OF sts, of seconds]
  have "sorted (timestamps (addEvents seconds ts) @ [now])"
    using le by (auto simp: sorted_append)
  from dropWhile_sorted_ge[OF this] assms(2)
  show ?thesis
    by (simp add: addEvents_snoc addEvent_timestamps addEvents_windowDuration not_less)
qed

lemmas window_eval =
  addEvents_def newSlidingWindow_def addEvent_def cleanup_def ticksPerSecond_def Let_def

theorem window_in_order_no_stale_witness:
  "sorted ([0, 30 * ticksPerSecond] @ [100 * ticksPerSecond])
   \<and> timestamps (addEvents 60 ([0, 30 * ticksPerSecond] @ [100 * ticksPerSecond]))
       = [100 * ticksPerSecond]
   \<and> \<not> 100 * ticksPerSecond < 100 * ticksPerSecond - 60 * ticksPerSecond"
proof -
  have s: "sorted ([0, 30 * ticksPerSecond] @ [100 * ticksPerSecond])"
    by (simp add: ticksPerSecond_def)
  have t: "timestamps (addEvents 60 ([0, 30 * ticksPerSecond] @ [100 * ticksPerSecond]))
             = [100 * ticksPerSecond]"
    by (simp add: window_eval)
  have m: "100 * ticksPerSecond
             \<in> set (timestamps (addEvents 60 ([0, 30 * ticksPerSecond] @ [100 * ticksPerSecond])))"
    by (simp only: t) simp
  show ?thesis
    using window_in_order_no_stale[OF s m] s t by simp
qed

text \<open>The claim as stated fails for out-of-order arrival: with a 60 s window, the events
  at 1000 s, 0 s and 1010 s leave the timestamp 0 in the window, behind the front 1000 s,
  although it is older than the cutoff 950 s.\<close>

theorem window_out_of_order_counterexample:
  "0 \<in> set (timestamps (addEvents 60 [1000 * ticksPerSecond, 0, 1010 * ticksPerSecond]))
   \<and> 0 < 1010 * ticksPerSecond - 60 * ticksPerSecond"
  by (simp add: window_eval)

subsection \<open>Trust score of an unknown user\<close>

lemmas engine_eval =
  getUserTrustScore_def calculateUserCredibility_def detectBot_def updateBotDetection_def
  botResult_def calculateVotingVelocity_def calculateAvgInterVoteGap_def detectBotBehavior_def
  velocityScore_def gapScore_def deviceScore_def ipScore_def entry_def touch_def
  calculateAccountAgeScore_def calculateMajorityAgreementScore_def userCollusionScore_def
  deviceDiversityOf_def newAntiAbuseEngine_def markUserSuspicious_def generateThreatAlert_def
  dmin_def dsub_def signedInf_def Let_def

text \<open>
  \<^bold>\<open>C1\<close>. The header documents \<^verbatim>\<open>getUserTrustScore\<close> as returning the default 0.5 for
  a user that is not found. The code has no such branch: it computes (and caches) a
  credibility score for the unknown user. On a fresh engine with the default thresholds
  the result is \<open>0.15 \<cdot> 0.5 + 0.15 \<cdot> 0.5 + 0.10 \<cdot> 0.5 + 0.15 + 0.15 + 0.05 \<cdot> 0.5 + 0.05 = 0.575\<close>.
\<close>

theorem unknown_user_trust_score:
  "fst (getUserTrustScore (newAntiAbuseEngine 30 200 60) ''ghost'') = Fin 0.575"
  by (simp add: engine_eval)

subsection \<open>The credibility cache and new events\<close>

lemma updateBotDetection_credibility:
  "userCredibilityScores (updateBotDetection e uid) = userCredibilityScores e"
  by (simp add: updateBotDetection_def Let_def markUserSuspicious_def generateThreatAlert_def)

lemma recordVoteEvent_credibility:
  "userCredibilityScores (recordVoteEvent e uid pid ts ip dev) = userCredibilityScores e"
  by (simp add: recordVoteEvent_def Let_def updateBotDetection_credibility)

text \<open>
  \<^bold>\<open>C9\<close> (as the code has it). \<^verbatim>\<open>recordVoteEvent\<close> does not touch
  \<^verbatim>\<open>userCredibilityScores\<close>: when a score is cached for \<open>uid\<close>, the next
  \<^verbatim>\<open>getUserTrustScore(uid)\<close> after a new vote event of \<open>uid\<close> returns the trust score
  cached before the event, and changes nothing.
\<close>

theorem cached_trust_survives_vote_event:
  assumes "userCredibilityScores e uid = Some cached"
  shows "userCredibilityScores (recordVoteEvent e uid pid ts ip dev) = userCredibilityScores e
         \<and> getUserTrustScore (recordVoteEvent e uid pid ts ip dev) uid
             = (trustScore cached, recordVoteEvent e uid pid ts ip dev)"
  using assms by (simp add: getUserTrustScore_def recordVoteEvent_credibility)

text \<open>The claim as stated fails: a user queried on a fresh engine gets 0.575 cached; after
  a vote event with a device hash the query still answers 0.575, where a recomputation
  over the new state gives 0.578.\<close>

theorem stale_trust_counterexample:
  "fst (getUserTrustScore
          (recordVoteEvent (snd (getUserTrustScore (newAntiAbuseEngine 30 200 60) ''u''))
             ''u'' ''p'' 0 [] ''dev'') ''u'') = Fin 0.575
   \<and> trustScore (fst (calculateUserCredibility
          (recordVoteEvent (snd (getUserTrustScore (newAntiAbuseEngine 30 200 60) ''u''))
             ''u'' ''p'' 0 [] ''dev'') ''u'')) = Fin 0.578"
  by code_simp

theorem cached_trust_survives_vote_event_witness:
  "userCredibilityScores (snd (getUserTrustScore (newAntiAbuseEngine 30 200 60) ''u'')) ''u'' \<noteq> None
   \<and> fst (getUserTrustScore
            (recordVoteEvent (snd (getUserTrustScore (newAntiAbuseEngine 30 200 60) ''u''))
               ''u'' ''p'' 0 [] ''dev'') ''u'')
       = fst (getUserTrustScore (newAntiAbuseEngine 30 200 60) ''u'')"
proof -
  obtain cached where c:
    "userCredibilityScores (snd (getUserTrustScore (newAntiAbuseEngine 30 200 60) ''u'')) ''u''
       = Some cached"
    and t: "trustScore cached = fst (getUserTrustScore (newAntiAbuseEngine 30 200 60) ''u'')"
    by (simp add: engine_eval)
  show ?thesis
    using cached_trust_survives_vote_event[OF c, of "''p''" 0 "[]" "''dev''"] c t by simp
qed

subsection \<open>clearUser\<close>

text \<open>
  \<^bold>\<open>C10\<close>. \<^verbatim>\<open>clearUser(u)\<close> erases the key \<open>u\<close> from the vote history, the velocity
  windows, the IP and device sets, the bot-detection cache, the credibility cache and the
  suspicious flags, and nothing else from them; the co-voting graph (hence every co-vote
  count, also of pairs with \<open>u\<close>), both reverse indexes, the collusion cache, the
  alerts and the configuration are the same before and after.
\<close>

theorem clearUser_frame:
  "userVoteHistory (clearUser e u) = (userVoteHistory e)(u := None)
   \<and> userVelocityWindows (clearUser e u) = (userVelocityWindows e)(u := None)
   \<and> userIPs (clearUser e u) = (userIPs e)(u := None)
   \<and> userDevices (clearUser e u) = (userDevices e)(u := None)
   \<and> botDetectionCache (clearUser e u) = (botDetectionCache e)(u := None)
   \<and> userCredibilityScores (clearUser e u) = (userCredibilityScores e)(u := None)
   \<and> suspiciousUsers (clearUser e u) = (suspiciousUsers e)(u := None)
   \<and> coVotingGraph (clearUser e u) = coVotingGraph e
   \<and> getCoVoteCount (coVotingGraph (clearUser e u)) x y = getCoVoteCount (coVotingGraph e) x y
   \<and> ipToUsers (clearUser e u) = ipToUsers e
   \<and> deviceToUsers (clearUser e u) = deviceToUsers e
   \<and> collusionDetectionCache (clearUser e u) = collusionDetectionCache e
   \<and> threatAlerts (clearUser e u) = threatAlerts e
   \<and> alertCounter (clearUser e u) = alertCounter e
   \<and> velocityThreshold (clearUser e u) = velocityThreshold e
   \<and> deltaThresholdMs (clearUser e u) = deltaThresholdMs e
   \<and> minCoVotesForCollusion (clearUser e u) = minCoVotesForCollusion e
   \<and> collusionThreshold (clearUser e u) = collusionThreshold e
   \<and> botLikelihoodThreshold (clearUser e u) = botLikelihoodThreshold e
   \<and> velocityWindowSeconds (clearUser e u) = velocityWindowSeconds e"
  by (simp add: clearUser_def)

subsection \<open>What the operations change\<close>

lemma entry_touch: "entry (touch m k) k' = entry m k'"
  by (auto simp: entry_def touch_def split: option.splits)

lemmas ub_unfold = updateBotDetection_def Let_def markUserSuspicious_def generateThreatAlert_def


lemma updateBotDetection_config:
  "velocityThreshold (updateBotDetection e uid) = velocityThreshold e"
  "deltaThresholdMs (updateBotDetection e uid) = deltaThresholdMs e"
  "velocityWindowSeconds (updateBotDetection e uid) = velocityWindowSeconds e"
  "collusionDetectionCache (updateBotDetection e uid) = collusionDetectionCache e"
  "coVotingGraph (updateBotDetection e uid) = coVotingGraph e"
  "minCoVotesForCollusion (updateBotDetection e uid) = minCoVotesForCollusion e"
  "collusionThreshold (updateBotDetection e uid) = collusionThreshold e"
  by (simp_all add: ub_unfold)


lemma updateBotDetection_history:
  "entry (userVoteHistory (updateBotDetection e uid)) k = entry (userVoteHistory e) k"
  by (simp add: ub_unfold entry_touch)





lemma recordVoteEvent_config:
  "velocityThreshold (recordVoteEvent e uid pid ts ip dev) = velocityThreshold e"
  "deltaThresholdMs (recordVoteEvent e uid pid ts ip dev) = deltaThresholdMs e"
  "velocityWindowSeconds (recordVoteEvent e uid pid ts ip dev) = velocityWindowSeconds e"
  "collusionDetectionCache (recordVoteEvent e uid pid ts ip dev) = collusionDetectionCache e"
  "minCoVotesForCollusion (recordVoteEvent e uid pid ts ip dev) = minCoVotesForCollusion e"
  "collusionThreshold (recordVoteEvent e uid pid ts ip dev) = collusionThreshold e"
  "coVotingGraph (recordVoteEvent e uid pid ts ip dev) = addVote (coVotingGraph e) uid pid"
  by (simp_all add: recordVoteEvent_def Let_def updateBotDetection_config)



subsection \<open>Loops that can fail\<close>


lemma foldl_mark_fields:
  "collusionDetectionCache (foldl markUserSuspicious e us) = collusionDetectionCache e"
  "coVotingGraph (foldl markUserSuspicious e us) = coVotingGraph e"
  "collusionThreshold (foldl markUserSuspicious e us) = collusionThreshold e"
  "userVelocityWindows (foldl markUserSuspicious e us) = userVelocityWindows e"
  "minCoVotesForCollusion (foldl markUserSuspicious e us) = minCoVotesForCollusion e"
  by (induction us arbitrary: e) (simp_all add: markUserSuspicious_def)

lemma collusionStep_fields:
  assumes "collusionStep e c = Some e'"
  shows "coVotingGraph e' = coVotingGraph e"
    and "collusionThreshold e' = collusionThreshold e"
    and "userVelocityWindows e' = userVelocityWindows e"
    and "minCoVotesForCollusion e' = minCoVotesForCollusion e"
  using assms
  by (auto simp: collusionStep_def Let_def foldl_mark_fields generateThreatAlert_def
      split: if_splits option.splits)



subsection \<open>Windows of reachable states\<close>








subsection \<open>Bounds of the bot likelihood\<close>


text \<open>A window of zero seconds that holds an event has the rate \<open>+\<infinity>\<close>.\<close>

lemma getRate_zero_window: "getRate \<lparr>timestamps = [t], windowDuration = 0\<rparr> = PInf"
  by (simp add: getRate_def signedInf_def)


lemma velocityScore_Fin:
  "velocityScore (Fin r) t =
     (if t = 0 then (if r < 0 then NInf else Fin 1)
      else if r / (t * 2) < 1 then Fin (r / (t * 2)) else Fin 1)"
  by (simp add: velocityScore_def dmin_def signedInf_def)

lemma velocityScore_PInf: "velocityScore PInf t = (if t < 0 then NInf else Fin 1)"
  by (simp add: velocityScore_def dmin_def)

text \<open>With the threshold 0 the velocity score of the rate 0 is \<open>min(1, 0/0) = 1\<close>; with
  a negative threshold the score of an infinite rate is \<open>-\<infinity>\<close>.\<close>

lemma velocityScore_zero_threshold: "velocityScore (Fin 0) 0 = Fin 1"
  by (simp add: velocityScore_Fin)

lemma velocityScore_negative_threshold: "velocityScore PInf (- 30) = NInf"
  by (simp add: velocityScore_PInf)










subsection \<open>A burst of votes\<close>

lemma recordVotes_snoc: "recordVotes e (vs @ [(u, p)]) = recordVoteEvent (recordVotes e vs) u p 0 [] []"
  by (simp add: recordVotes_def)











subsection \<open>Collusion results\<close>

lemma filter_sum_nonneg:
  "0 \<le> sum_list (map f (filter (\<lambda>x. 0 < f x) xs))" for f :: "'a \<Rightarrow> int"
  by (induction xs) auto

lemma filter_sum_nonneg_pairs:
  "0 \<le> sum_list (map (\<lambda>(x, y). f x y) (filter (\<lambda>(x, y). 0 < f x y) ps))"
  for f :: "'a \<Rightarrow> 'b \<Rightarrow> int"
  by (induction ps) auto

lemma totalCoVotes_nonneg: "0 \<le> totalCoVotes g c"
  unfolding totalCoVotes_def by (rule filter_sum_nonneg_pairs)

text \<open>The inner loop: the sums of the positive counts, unless one of the two additions
  leaves the range of \<^verbatim>\<open>int\<close>.\<close>

lemma foldM_countPair:
  assumes "0 \<le> t" and "0 \<le> n" and "t \<le> 2147483647" and "n \<le> 2147483647"
  shows "foldM (countPair g ci) (t, n) rest =
     (if t + sum_list (map (getCoVoteCount g ci) (filter (\<lambda>cj. 0 < getCoVoteCount g ci cj) rest))
            \<le> 2147483647
         \<and> n + int (length (filter (\<lambda>cj. 0 < getCoVoteCount g ci cj) rest)) \<le> 2147483647
      then Some (t + sum_list (map (getCoVoteCount g ci)
                                 (filter (\<lambda>cj. 0 < getCoVoteCount g ci cj) rest)),
                 n + int (length (filter (\<lambda>cj. 0 < getCoVoteCount g ci cj) rest)))
      else None)"
  using assms
proof (induction rest arbitrary: t n)
  case Nil
  then show ?case by simp
next
  case (Cons cj rest)
  let ?S = "sum_list (map (getCoVoteCount g ci) (filter (\<lambda>cj. 0 < getCoVoteCount g ci cj) rest))"
  let ?L = "int (length (filter (\<lambda>cj. 0 < getCoVoteCount g ci cj) rest))"
  have S: "0 \<le> ?S" by (rule filter_sum_nonneg)
  have L: "0 \<le> ?L" by simp
  show ?case
  proof (cases "0 < getCoVoteCount g ci cj")
    case False
    then have "countPair g ci (t, n) cj = Some (t, n)" by (simp add: countPair_def)
    with False Cons.IH[OF Cons.prems] show ?thesis by simp
  next
    case True
    let ?c = "getCoVoteCount g ci cj"
    show ?thesis
    proof (cases "t + ?c \<le> 2147483647 \<and> n + 1 \<le> 2147483647")
      case ok: True
      with True Cons.prems have "countPair g ci (t, n) cj = Some (t + ?c, n + 1)"
        by (simp add: countPair_def add_int32_def Let_def)
      moreover have "0 \<le> t + ?c" "0 \<le> n + 1" using True Cons.prems by simp_all
      ultimately show ?thesis using True ok Cons.IH[of "t + ?c" "n + 1"]
        by (simp add: add.assoc)
    next
      case bad: False
      with True Cons.prems have "countPair g ci (t, n) cj = None"
        by (auto simp: countPair_def add_int32_def Let_def)
      moreover have "\<not> (t + (?c + ?S) \<le> 2147483647 \<and> n + (1 + ?L) \<le> 2147483647)"
        using bad S L by linarith
      ultimately show ?thesis using True by simp
    qed
  qed
qed

lemma communityMetrics_sums:
  assumes "0 \<le> t" and "0 \<le> n" and "t \<le> 2147483647" and "n \<le> 2147483647"
  shows "communityMetrics g c (t, n) =
     (if t + totalCoVotes g c \<le> 2147483647 \<and> n + int (realizedEdges g c) \<le> 2147483647
      then Some (t + totalCoVotes g c, n + int (realizedEdges g c))
      else None)"
  using assms
proof (induction c arbitrary: t n)
  case Nil
  then show ?case by (simp add: totalCoVotes_def realizedEdges_def)
next
  case (Cons ci rest)
  let ?S = "sum_list (map (getCoVoteCount g ci) (filter (\<lambda>cj. 0 < getCoVoteCount g ci cj) rest))"
  let ?L = "length (filter (\<lambda>cj. 0 < getCoVoteCount g ci cj) rest)"
  have S: "0 \<le> ?S" by (rule filter_sum_nonneg)
  have tot: "totalCoVotes g (ci # rest) = ?S + totalCoVotes g rest"
    by (simp add: totalCoVotes_def filter_map o_def)
  have edg: "realizedEdges g (ci # rest) = ?L + realizedEdges g rest"
    by (simp add: realizedEdges_def filter_map o_def)
  have tr: "0 \<le> totalCoVotes g rest" by (rule totalCoVotes_nonneg)
  show ?case
  proof (cases "t + ?S \<le> 2147483647 \<and> n + int ?L \<le> 2147483647")
    case True
    then have f: "foldM (countPair g ci) (t, n) rest = Some (t + ?S, n + int ?L)"
      using foldM_countPair[OF Cons.prems, of g ci rest] by simp
    have "0 \<le> t + ?S" "0 \<le> n + int ?L" using Cons.prems S by simp_all
    from Cons.IH[OF this] True show ?thesis unfolding tot edg
      by (simp add: f add.assoc)
  next
    case False
    then have f: "foldM (countPair g ci) (t, n) rest = None"
      using foldM_countPair[OF Cons.prems, of g ci rest] by simp
    have "\<not> (t + (?S + totalCoVotes g rest) \<le> 2147483647
            \<and> n + int (?L + realizedEdges g rest) \<le> 2147483647)"
      using False tr by auto
    then show ?thesis unfolding tot edg by (simp add: f)
  qed
qed

text \<open>What a stored result holds.\<close>

lemma collusionResult_Some:
  assumes "collusionResult g th c = Some r"
  shows "userGroup r = c"
    and "coVoteCount r = totalCoVotes g c"
    and "coVoteRate r =
           (if 0 < maxPossibleEdges (length c)
            then real (realizedEdges g c) / real_of_int (maxPossibleEdges (length c)) else 0)"
    and "collusionScore r =
           min 1 (0.5 * coVoteRate r
                  + 0.5 * ((if realizedEdges g c = 0 then 0
                            else real_of_int (totalCoVotes g c) / real (realizedEdges g c)) / 20))"
proof -
  have m: "communityMetrics g c (0, 0) =
     (if totalCoVotes g c \<le> 2147483647 \<and> int (realizedEdges g c) \<le> 2147483647
      then Some (totalCoVotes g c, int (realizedEdges g c)) else None)"
    using communityMetrics_sums[of 0 0 g c] by simp
  from assms have ok: "totalCoVotes g c \<le> 2147483647 \<and> int (realizedEdges g c) \<le> 2147483647"
    unfolding collusionResult_def m by (auto split: if_splits)
  have a: "(if 0 < int (realizedEdges g c)
            then real_of_int (totalCoVotes g c) / real_of_int (int (realizedEdges g c)) else 0)
           = (if realizedEdges g c = 0 then 0
              else real_of_int (totalCoVotes g c) / real (realizedEdges g c))"
    by simp
  define density where "density =
     (if 0 < maxPossibleEdges (length c)
      then real (realizedEdges g c) / real_of_int (maxPossibleEdges (length c)) else 0)"
  define avg where "avg =
     (if realizedEdges g c = 0 then 0
      else real_of_int (totalCoVotes g c) / real (realizedEdges g c))"
  have m': "communityMetrics g c (0, 0) = Some (totalCoVotes g c, int (realizedEdges g c))"
    using m ok by simp
  have "collusionResult g th c =
     Some \<lparr>userGroup = c, collusionScore = min 1 (0.5 * density + 0.5 * (avg / 20)),
           coVoteCount = totalCoVotes g c, coVoteRate = density,
           group_isSuspicious = (th < min 1 (0.5 * density + 0.5 * (avg / 20)))\<rparr>"
    unfolding collusionResult_def m' by (simp add: Let_def density_def avg_def)
  with assms have r: "r =
     \<lparr>userGroup = c, collusionScore = min 1 (0.5 * density + 0.5 * (avg / 20)),
      coVoteCount = totalCoVotes g c, coVoteRate = density,
      group_isSuspicious = (th < min 1 (0.5 * density + 0.5 * (avg / 20)))\<rparr>"
    by simp
  show "userGroup r = c" by (simp add: r)
  show "coVoteCount r = totalCoVotes g c" by (simp add: r)
  show "coVoteRate r =
           (if 0 < maxPossibleEdges (length c)
            then real (realizedEdges g c) / real_of_int (maxPossibleEdges (length c)) else 0)"
    by (simp add: r density_def)
  show "collusionScore r =
           min 1 (0.5 * coVoteRate r
                  + 0.5 * ((if realizedEdges g c = 0 then 0
                            else real_of_int (totalCoVotes g c) / real (realizedEdges g c)) / 20))"
    by (simp add: r avg_def)
qed

lemma collusionResult_defined:
  assumes "totalCoVotes g c \<le> 2147483647" and "int (realizedEdges g c) \<le> 2147483647"
  shows "collusionResult g th c \<noteq> None"
  using assms communityMetrics_sums[of 0 0 g c] by (simp add: collusionResult_def Let_def)

text \<open>The conversion to \<^verbatim>\<open>int\<close> keeps \<open>C(n, 2)\<close> up to 65536 members; with 65537 members
  the value \<open>2147516416\<close> becomes negative, and the density of the group is stored as 0.\<close>

lemma maxPossibleEdges_small:
  assumes "n \<le> 65536"
  shows "maxPossibleEdges n = int (n choose 2)"
proof -
  have "n * (n - 1) \<le> 65536 * 65535" using assms by (intro mult_mono) simp_all
  then have p: "n * (n - 1) \<le> 4294901760" by simp
  then have "size_t_mul n (n - 1) = n * (n - 1)" by (simp add: size_t_mul_def)
  moreover have "n * (n - 1) div 2 \<le> 2147450880" using p by simp
  ultimately show ?thesis
    by (simp add: maxPossibleEdges_def to_int32_def Let_def choose_two)
qed

lemma maxPossibleEdges_65537: "maxPossibleEdges 65537 = - 2147450880"
  by (simp add: maxPossibleEdges_def to_int32_def size_t_mul_def)

lemma density_65537:
  assumes "collusionResult g th c = Some r" and "length c = 65537"
  shows "coVoteRate r = 0"
  using collusionResult_Some(3)[OF assms(1)] assms(2) by (simp add: maxPossibleEdges_65537)

text \<open>The cache after the loop over the communities.\<close>

lemma collusionStep_cache:
  assumes "collusionStep e c = Some e'"
  shows "map Some (collusionDetectionCache e') =
     map Some (collusionDetectionCache e)
       @ (if length c < 2 then [] else [collusionResult (coVotingGraph e) (collusionThreshold e) c])"
  using assms
  by (auto simp: collusionStep_def Let_def foldl_mark_fields generateThreatAlert_def
      split: if_splits option.splits)

lemma foldM_collusionStep_cache:
  assumes "foldM collusionStep e cs = Some e'"
  shows "map Some (collusionDetectionCache e') =
     map Some (collusionDetectionCache e)
       @ map (collusionResult (coVotingGraph e) (collusionThreshold e))
           (filter (\<lambda>c. \<not> length c < 2) cs)"
  using assms
proof (induction cs arbitrary: e)
  case Nil
  then show ?case by simp
next
  case (Cons c cs)
  from Cons.prems obtain e1 where s: "collusionStep e c = Some e1"
    and r: "foldM collusionStep e1 cs = Some e'"
    by (auto split: option.splits)
  show ?case
    unfolding Cons.IH[OF r] collusionStep_cache[OF s] collusionStep_fields[OF s] by simp
qed

lemma foldM_collusionStep_defined:
  assumes "\<And>c. c \<in> set cs \<Longrightarrow> \<not> length c < 2
             \<Longrightarrow> collusionResult (coVotingGraph e) (collusionThreshold e) c \<noteq> None"
  shows "foldM collusionStep e cs \<noteq> None"
  using assms
proof (induction cs arbitrary: e)
  case Nil
  show ?case by simp
next
  case (Cons c cs)
  have "collusionStep e c \<noteq> None"
  proof (cases "length c < 2")
    case True
    then show ?thesis by (simp add: collusionStep_def)
  next
    case False
    then have "collusionResult (coVotingGraph e) (collusionThreshold e) c \<noteq> None"
      by (intro Cons.prems) simp_all
    with False show ?thesis by (auto simp: collusionStep_def Let_def)
  qed
  then obtain e1 where s: "collusionStep e c = Some e1" by auto
  have "foldM collusionStep e1 cs \<noteq> None"
    by (rule Cons.IH) (simp add: collusionStep_fields[OF s] Cons.prems)
  with s show ?case by simp
qed

lemma updateCollusionDetection_cache:
  assumes "updateCollusionDetection ord e = Some e'"
  shows "map Some (collusionDetectionCache e') =
     map (collusionResult (coVotingGraph e) (collusionThreshold e))
       (filter (\<lambda>c. \<not> length c < 2)
          (detectCommunities ord (coVotingGraph e) (minCoVotesForCollusion e)))"
  using assms
    foldM_collusionStep_cache[of "e\<lparr>collusionDetectionCache := []\<rparr>"
      "detectCommunities ord (coVotingGraph e) (minCoVotesForCollusion e)" e']
  by (simp add: updateCollusionDetection_def Let_def)

lemma updateCollusionDetection_member:
  assumes "updateCollusionDetection ord e = Some e'" and "r \<in> set (collusionDetectionCache e')"
  shows "\<exists>c \<in> set (detectCommunities ord (coVotingGraph e) (minCoVotesForCollusion e)).
           collusionResult (coVotingGraph e) (collusionThreshold e) c = Some r"
proof -
  from assms(2) have "Some r \<in> set (map Some (collusionDetectionCache e'))" by simp
  then show ?thesis unfolding updateCollusionDetection_cache[OF assms(1)] by auto
qed

text \<open>
  \<^bold>\<open>C4\<close> (as the code has it). When \<^verbatim>\<open>updateCollusionDetection\<close> completes (no
  addition into \<^verbatim>\<open>totalCoVotes\<close> or \<^verbatim>\<open>edgeCount\<close> overflows), every group that
  it stores is a detected community and its score is
  \<open>min(1, 0.5 \<cdot> density + 0.5 \<cdot> (avgCoVotes / 20))\<close> with
  \<open>avgCoVotes = totalCoVotes / realizedEdges\<close> (0 without edges): the term
  \<open>avgCoVotes / 20\<close> is not capped before it is weighted. The density is
  \<open>realizedEdges / maxPossibleEdges\<close> (0 when the divisor is not positive), where
  \<open>maxPossibleEdges\<close> is \<open>C(size, 2)\<close> converted to \<^verbatim>\<open>int\<close>: for a group of at most
  65536 members the density is \<open>realizedEdges / C(size, 2)\<close>.
\<close>

theorem collusion_score_formula:
  assumes "updateCollusionDetection ord e = Some e'"
    and "r \<in> set (collusionDetectionCache e')"
  shows "userGroup r \<in> set (detectCommunities ord (coVotingGraph e) (minCoVotesForCollusion e))
    \<and> collusionScore r =
        min 1 (0.5 * coVoteRate r
               + 0.5 * ((if realizedEdges (coVotingGraph e) (userGroup r) = 0 then 0
                         else real_of_int (totalCoVotes (coVotingGraph e) (userGroup r))
                                / real (realizedEdges (coVotingGraph e) (userGroup r))) / 20))
    \<and> coVoteRate r =
        (if 0 < maxPossibleEdges (length (userGroup r))
         then real (realizedEdges (coVotingGraph e) (userGroup r))
                / real_of_int (maxPossibleEdges (length (userGroup r)))
         else 0)
    \<and> (length (userGroup r) \<le> 65536 \<longrightarrow>
         coVoteRate r = real (realizedEdges (coVotingGraph e) (userGroup r))
                          / real (length (userGroup r) choose 2))"
proof -
  from updateCollusionDetection_member[OF assms] obtain c
    where c: "c \<in> set (detectCommunities ord (coVotingGraph e) (minCoVotesForCollusion e))"
      and r: "collusionResult (coVotingGraph e) (collusionThreshold e) c = Some r"
    by blast
  note s = collusionResult_Some[OF r]
  have small: "coVoteRate r = real (realizedEdges (coVotingGraph e) c) / real (length c choose 2)"
    if "length c \<le> 65536"
    unfolding s(3) maxPossibleEdges_small[OF that] by simp
  show ?thesis using c s(3,4) small unfolding s(1) by simp
qed

lemma recordVotes_graph:
  "coVotingGraph (recordVotes e votes) = foldl (\<lambda>g (u, p). addVote g u p) (coVotingGraph e) votes
   \<and> minCoVotesForCollusion (recordVotes e votes) = minCoVotesForCollusion e
   \<and> collusionThreshold (recordVotes e votes) = collusionThreshold e"
proof (induction votes rule: rev_induct)
  case Nil
  show ?case by (simp add: recordVotes_def)
next
  case (snoc v votes)
  obtain u p where v: "v = (u, p)" by (cases v)
  show ?case unfolding v recordVotes_snoc using snoc.IH
    by (simp add: recordVoteEvent_config)
qed

lemma pathVotes_adjacency:
  "adjacency (addVotes (pathVotes 40)) =
     [(''b'', [(''a'', 40), (''c'', 40)]), (''a'', [(''b'', 40)]), (''c'', [(''b'', 40)])]"
  by code_simp

lemma pathVotes_detect:
  "detectCommunities pathOrder (addVotes (pathVotes 40)) 5 = [[''c'', ''b'', ''a'']]"
  by (simp add: detectCommunities_def pathVotes_adjacency visitNeighbors_def visitNeighbor_def
      pathOrder_def)

lemma pathVotes_enumerated: "enumerates pathOrder (addVotes (pathVotes 40))"
  by (auto simp: enumerates_def rowsEnumerated_def pathVotes_adjacency pathOrder_def
      split: if_splits)

lemma pathVotes_edges:
  "realizedEdges (addVotes (pathVotes 40)) [''c'', ''b'', ''a''] = 2"
  "totalCoVotes (addVotes (pathVotes 40)) [''c'', ''b'', ''a''] = 80"
proof -
  have w: "getCoVoteCount (addVotes (pathVotes 40)) ''c'' ''b'' = 40"
    "getCoVoteCount (addVotes (pathVotes 40)) ''c'' ''a'' = 0"
    "getCoVoteCount (addVotes (pathVotes 40)) ''b'' ''a'' = 40"
    by (simp_all add: getCoVoteCount_def pathVotes_adjacency)
  show "realizedEdges (addVotes (pathVotes 40)) [''c'', ''b'', ''a''] = 2"
    "totalCoVotes (addVotes (pathVotes 40)) [''c'', ''b'', ''a''] = 80"
    by (simp_all add: realizedEdges_def totalCoVotes_def w)
qed

lemma pathEngine_graph:
  "coVotingGraph pathEngine = addVotes (pathVotes 40)"
  "minCoVotesForCollusion pathEngine = 5"
  "collusionThreshold pathEngine = 0.7"
  using recordVotes_graph[of "newAntiAbuseEngine 30 200 60" "pathVotes 40"]
  by (simp_all add: pathEngine_def addVotes_def newAntiAbuseEngine_def)

text \<open>The run on the path a - b - c completes and stores one group: c, b, a.\<close>

lemma pathEngine_detected:
  "\<exists>e' r. updateCollusionDetection pathOrder pathEngine = Some e'
          \<and> collusionDetectionCache e' = [r]
          \<and> collusionResult (addVotes (pathVotes 40)) 0.7 [''c'', ''b'', ''a''] = Some r"
proof -
  have "collusionResult (addVotes (pathVotes 40)) 0.7 [''c'', ''b'', ''a''] \<noteq> None"
    by (rule collusionResult_defined) (simp_all add: pathVotes_edges)
  then obtain r where r: "collusionResult (addVotes (pathVotes 40)) 0.7 [''c'', ''b'', ''a''] = Some r"
    by auto
  have "foldM collusionStep (pathEngine\<lparr>collusionDetectionCache := []\<rparr>) [[''c'', ''b'', ''a'']] \<noteq> None"
    by (rule foldM_collusionStep_defined) (simp add: pathEngine_graph r)
  then have "updateCollusionDetection pathOrder pathEngine \<noteq> None"
    by (simp add: updateCollusionDetection_def Let_def pathEngine_graph pathVotes_detect)
  then obtain e' where e': "updateCollusionDetection pathOrder pathEngine = Some e'" by auto
  from updateCollusionDetection_cache[OF e']
  have "map Some (collusionDetectionCache e') = [Some r]"
    by (simp add: pathEngine_graph pathVotes_detect r)
  then have "collusionDetectionCache e' = [r]" by (auto simp: map_eq_Cons_conv)
  with e' r show ?thesis by blast
qed

lemma choose_3_2: "Suc (Suc (Suc 0)) choose 2 = 3"
  by (simp add: choose_two)

theorem collusion_score_formula_witness:
  "map_option (\<lambda>e'. map (\<lambda>r. (userGroup r, collusionScore r, coVoteRate r))
                      (collusionDetectionCache e'))
     (updateCollusionDetection pathOrder pathEngine)
   = Some [([''c'', ''b'', ''a''], 1, 2 / 3)]"
proof -
  from pathEngine_detected obtain e' r
    where u: "updateCollusionDetection pathOrder pathEngine = Some e'"
      and c: "collusionDetectionCache e' = [r]"
      and r: "collusionResult (addVotes (pathVotes 40)) 0.7 [''c'', ''b'', ''a''] = Some r"
    by blast
  have m: "r \<in> set (collusionDetectionCache e')" by (simp add: c)
  have g: "userGroup r = [''c'', ''b'', ''a'']" using r by (rule collusionResult_Some(1))
  note f = collusion_score_formula[OF u m]
  from f have rate: "coVoteRate r = 2 / 3"
    by (simp add: g pathEngine_graph pathVotes_edges choose_3_2)
  from f have "collusionScore r = 1"
    unfolding rate by (simp add: g pathEngine_graph pathVotes_edges)
  with u c g rate show ?thesis by simp
qed

text \<open>
  The claim as stated fails on a detected group that is not a clique. In the path a - b - c
  with 40 co-votes on each edge (density 2/3, 40 co-votes per edge on average) the code
  stores \<open>min(1, 1/3 + 0.5 \<cdot> 2) = 1\<close>, where the capped formula gives
  \<open>min(1, 1/3 + 0.5 \<cdot> 1) = 5/6\<close>.
\<close>

theorem collusion_score_counterexample:
  "map_option (\<lambda>(results, e'). map (\<lambda>r. (userGroup r, collusionScore r)) results)
     (detectCollusion pathOrder pathEngine)
     = Some [([''c'', ''b'', ''a''], 1)]
   \<and> specCollusionScore (coVotingGraph pathEngine) [''c'', ''b'', ''a''] = 5 / 6"
proof -
  from pathEngine_detected obtain e' r
    where u: "updateCollusionDetection pathOrder pathEngine = Some e'"
      and c: "collusionDetectionCache e' = [r]"
      and r: "collusionResult (addVotes (pathVotes 40)) 0.7 [''c'', ''b'', ''a''] = Some r"
    by blast
  note s = collusionResult_Some[OF r]
  have m: "maxPossibleEdges (Suc (Suc (Suc 0))) = 3"
    using maxPossibleEdges_small[of "Suc (Suc (Suc 0))"] by (simp add: choose_3_2)
  have rate: "coVoteRate r = 2 / 3" unfolding s(3) by (simp add: m pathVotes_edges)
  have score: "collusionScore r = 1" unfolding s(4) rate by (simp add: pathVotes_edges)
  have a: "map_option (\<lambda>(results, e'). map (\<lambda>r. (userGroup r, collusionScore r)) results)
     (detectCollusion pathOrder pathEngine) = Some [([''c'', ''b'', ''a''], 1)]"
    by (simp add: detectCollusion_def u c s(1) score)
  have b: "specCollusionScore (coVotingGraph pathEngine) [''c'', ''b'', ''a''] = 5 / 6"
    by (simp add: pathEngine_graph specCollusionScore_def Let_def pathVotes_edges choose_3_2)
  show ?thesis using a b by simp
qed
subsection \<open>The trust score\<close>

text \<open>The score structure that \<^verbatim>\<open>calculateUserCredibility\<close> returns carries the linear
  combination of its own component fields, in \<^verbatim>\<open>double\<close> arithmetic.\<close>

lemma trust_score_linear_combination:
  "trustScore (fst (calculateUserCredibility e uid)) =
     dadd (dadd (dadd (dadd
       (Fin (0.20 * accountAgeScore (fst (calculateUserCredibility e uid))
             + 0.15 * deviceDiversityScore (fst (calculateUserCredibility e uid))
             + 0.15 * majorityAgreementScore (fst (calculateUserCredibility e uid))
             + 0.10 * verificationScore (fst (calculateUserCredibility e uid))))
       (dmul (Fin 0.15) (dsub (Fin 1) (score_botLikelihood (fst (calculateUserCredibility e uid))))))
       (Fin (0.15 * (1 - score_collusionScore (fst (calculateUserCredibility e uid))))))
       (Fin (0.05 * consistencyScore (fst (calculateUserCredibility e uid)))))
       (Fin (0.05 * reportScore (fst (calculateUserCredibility e uid))))"
  by (simp add: calculateUserCredibility_def Let_def calculateAccountAgeScore_def
      calculateMajorityAgreementScore_def case_prod_beta)

text \<open>
  \<^bold>\<open>C8\<close>. The header documents \<^verbatim>\<open>trustScore\<close> as a value from 0.0 to 1.0, and the
  claim states that range. The code does not keep it: the constructor accepts the velocity
  threshold \<open>-0.01\<close>; one vote then has the velocity score \<open>1 / (2 \<cdot> (-0.01)) = -50\<close>
  and the bot likelihood \<open>0.4 \<cdot> (-50) = -20\<close>, and the trust score of the user is
  \<open>0.2 \<cdot> 0.02 + 0.15 \<cdot> 0.5 + 0.15 \<cdot> 0.5 + 0.1 \<cdot> 0.5 + 0.15 \<cdot> 21 + 0.15 + 0.05 \<cdot> 0.5 + 0.05 = 3.579\<close>.
\<close>

theorem trust_score_negative_threshold:
  "trustScore (fst (calculateUserCredibility
      (recordVoteEvent (newAntiAbuseEngine (- 0.01) 200 60) ''u'' ''p'' 0 [] []) ''u'')) = Fin 3.579"
  by code_simp
subsection \<open>The detected communities\<close>

text \<open>One pass over the enumerated keys of a row marks and queues exactly the unvisited
  neighbours whose count reaches the threshold.\<close>

lemma visitNeighbor_step:
  "visitNeighbor m row (V, q) y =
     (if y \<notin> V \<and> (\<exists>c. map_of row y = Some c \<and> m \<le> c) then (insert y V, q @ [y]) else (V, q))"
  by (auto simp: visitNeighbor_def split: option.splits)

lemma foldl_visitNeighbor_spec:
  "foldl (visitNeighbor m row) (V, q) ks = (V', q') \<Longrightarrow>
     V' = V \<union> {y \<in> set ks. \<exists>c. map_of row y = Some c \<and> m \<le> c}
     \<and> (\<exists>new. q' = q @ new \<and> distinct new
            \<and> set new = {y \<in> set ks. \<exists>c. map_of row y = Some c \<and> m \<le> c} - V)"
proof (induction ks arbitrary: V q)
  case Nil
  then show ?case by simp
next
  case (Cons k ks)
  let ?P = "\<lambda>y. \<exists>c. map_of row y = Some c \<and> m \<le> c"
  show ?case
  proof (cases "k \<notin> V \<and> ?P k")
    case True
    with Cons.prems have f: "foldl (visitNeighbor m row) (insert k V, q @ [k]) ks = (V', q')"
      by (simp add: visitNeighbor_step)
    from Cons.IH[OF f] obtain new where V': "V' = insert k V \<union> {y \<in> set ks. ?P y}"
      and q': "q' = (q @ [k]) @ new" and d: "distinct new"
      and n: "set new = {y \<in> set ks. ?P y} - insert k V" by blast
    have "q' = q @ (k # new)" using q' by simp
    moreover have "distinct (k # new)" using d n by auto
    moreover have "set (k # new) = {y \<in> set (k # ks). ?P y} - V"
      using n True by auto
    moreover have "V' = V \<union> {y \<in> set (k # ks). ?P y}"
      using V' True by auto
    ultimately show ?thesis by blast
  next
    case False
    with Cons.prems have f: "foldl (visitNeighbor m row) (V, q) ks = (V', q')"
      by (simp add: visitNeighbor_step)
    from Cons.IH[OF f] obtain new where V': "V' = V \<union> {y \<in> set ks. ?P y}"
      and q': "q' = q @ new" and d: "distinct new"
      and n: "set new = {y \<in> set ks. ?P y} - V" by blast
    have "set new = {y \<in> set (k # ks). ?P y} - V"
      using n False by auto
    moreover have "V' = V \<union> {y \<in> set (k # ks). ?P y}"
      using V' False by auto
    ultimately show ?thesis using q' d by blast
  qed
qed

lemma visitNeighbors_queue:
  assumes "visitNeighbors ro m adj current (V, q) = (V', q')"
  shows "\<exists>new. q' = q @ new"
proof (cases "map_of adj current")
  case None
  then show ?thesis using assms by (simp add: visitNeighbors_def)
next
  case (Some row)
  then show ?thesis
    using assms foldl_visitNeighbor_spec[of m row V q "ro current" V' q']
    by (auto simp: visitNeighbors_def)
qed

lemma visitNeighbors_spec:
  assumes "rowsEnumerated ro adj" and "visitNeighbors ro m adj current (V, q) = (V', q')"
  shows "V' = V \<union> strong m adj `` {current}"
    and "\<exists>new. q' = q @ new \<and> distinct new \<and> set new = strong m adj `` {current} - V"
proof -
  have keys: "{y \<in> set (ro current). \<exists>c. map_of row y = Some c \<and> m \<le> c}
                = {y. \<exists>c. map_of row y = Some c \<and> m \<le> c}"
    if row: "map_of adj current = Some row" for row
  proof -
    have "y \<in> set (map fst row)" if "map_of row y = Some c" for y c
      using map_of_SomeD[OF that] by force
    moreover have "set (ro current) = set (map fst row)"
      using assms(1) row by (simp add: rowsEnumerated_def)
    ultimately show ?thesis by auto
  qed
  have s: "strong m adj `` {current} =
     (case map_of adj current of None \<Rightarrow> {}
      | Some row \<Rightarrow> {y. \<exists>c. map_of row y = Some c \<and> m \<le> c})"
    by (auto simp: strong_def split: option.splits)
  show "V' = V \<union> strong m adj `` {current}"
  proof (cases "map_of adj current")
    case None
    then show ?thesis using assms(2) by (simp add: visitNeighbors_def s)
  next
    case (Some row)
    then show ?thesis
      using assms(2) foldl_visitNeighbor_spec[of m row V q "ro current" V' q']
      by (simp add: visitNeighbors_def s keys[OF Some])
  qed
  show "\<exists>new. q' = q @ new \<and> distinct new \<and> set new = strong m adj `` {current} - V"
  proof (cases "map_of adj current")
    case None
    then show ?thesis using assms(2) by (simp add: visitNeighbors_def s)
  next
    case (Some row)
    then show ?thesis
      using assms(2) foldl_visitNeighbor_spec[of m row V q "ro current" V' q']
      by (simp add: visitNeighbors_def s keys[OF Some])
  qed
qed

text \<open>The community starts with the users that are queued when the search begins.\<close>

lemma bfs_prefix:
  "bfs ro m adj q V C = (C', V') \<Longrightarrow> \<exists>more. C' = C @ q @ more"
proof (induction ro m adj q V C arbitrary: C' V' rule: bfs.induct)
  case (1 ro m adj V C)
  then show ?case by simp
next
  case (2 ro m adj current q V C)
  obtain V1 q1 where vn: "visitNeighbors ro m adj current (V, q) = (V1, q1)" by force
  from visitNeighbors_queue[OF vn] obtain new where q1: "q1 = q @ new" by blast
  have call: "bfs ro m adj q1 V1 (C @ [current]) = (C', V')"
    using "2.prems" by (simp add: vn Let_def)
  have vq: "(V1, q1) = visitNeighbors ro m adj current (V, q)" using vn by simp
  from "2.IH"[OF vq, of C' V'] call obtain more where "C' = (C @ [current]) @ q1 @ more"
    by auto
  then have "C' = C @ (current # q) @ (new @ more)" by (simp add: q1)
  then show ?case by blast
qed

text \<open>The search loop: when everything visited but not queued has all its neighbours
  visited, the loop ends with the visited set closed under the edges, and the community
  collects the queue and the newly visited users, each once.\<close>

lemma bfs_spec:
  assumes "rowsEnumerated ro adj"
    and "bfs ro m adj q V C = (C', V')"
    and "set q \<subseteq> V"
    and "strong m adj `` (V - set q) \<subseteq> V"
    and "distinct (C @ q)"
    and "set C \<subseteq> V"
  shows "V \<subseteq> V' \<and> V' \<subseteq> V \<union> (strong m adj)\<^sup>* `` set q \<and> strong m adj `` V' \<subseteq> V'
         \<and> set C' = set C \<union> set q \<union> (V' - V) \<and> distinct C'"
  using assms
proof (induction ro m adj q V C arbitrary: C' V' rule: bfs.induct)
  case (1 ro m adj V C)
  then show ?case by auto
next
  case (2 ro m adj current q V C)
  let ?R = "strong m adj"
  have en: "rowsEnumerated ro adj" by (rule "2.prems"(1))
  obtain V1 q1 where vn: "visitNeighbors ro m adj current (V, q) = (V1, q1)" by force
  from visitNeighbors_spec[OF en vn] obtain new
    where V1: "V1 = V \<union> ?R `` {current}"
      and q1: "q1 = q @ new" and dn: "distinct new" and sn: "set new = ?R `` {current} - V"
    by blast
  have call: "bfs ro m adj q1 V1 (C @ [current]) = (C', V')"
    using "2.prems"(2) by (simp add: vn Let_def)
  have cur: "current \<in> V" and qV: "set q \<subseteq> V" using "2.prems"(3) by auto
  have p1: "set q1 \<subseteq> V1" using qV V1 q1 sn by auto
  have p2: "?R `` (V1 - set q1) \<subseteq> V1"
  proof
    fix y assume "y \<in> ?R `` (V1 - set q1)"
    then obtain x where x: "x \<in> V1" "x \<notin> set q1" and xy: "(x, y) \<in> ?R" by auto
    have xV: "x \<in> V" using x V1 q1 sn by auto
    show "y \<in> V1"
    proof (cases "x = current")
      case True
      then show ?thesis using xy V1 by auto
    next
      case False
      then have "x \<in> V - set (current # q)" using xV x q1 by auto
      then have "y \<in> V" using "2.prems"(4) xy by auto
      then show ?thesis using V1 by simp
    qed
  qed
  have p3: "distinct ((C @ [current]) @ q1)"
    using "2.prems"(5,6) dn sn q1 cur qV by auto
  have p4: "set (C @ [current]) \<subseteq> V1" using "2.prems"(6) cur V1 by auto
  have vq: "(V1, q1) = visitNeighbors ro m adj current (V, q)" using vn by simp
  from "2.IH"[OF vq, of C' V'] en call p1 p2 p3 p4
  have ih: "V1 \<subseteq> V'" "V' \<subseteq> V1 \<union> ?R\<^sup>* `` set q1" "?R `` V' \<subseteq> V'"
    "set C' = set (C @ [current]) \<union> set q1 \<union> (V' - V1)" "distinct C'"
    by simp_all
  have a: "V \<subseteq> V'" using ih(1) V1 by auto
  have r1: "?R `` {current} \<subseteq> ?R\<^sup>* `` set (current # q)" by auto
  have r2: "?R\<^sup>* `` set q1 \<subseteq> ?R\<^sup>* `` set (current # q)"
  proof
    fix y assume "y \<in> ?R\<^sup>* `` set q1"
    then obtain x where x: "x \<in> set q1" and xy: "(x, y) \<in> ?R\<^sup>*" by auto
    show "y \<in> ?R\<^sup>* `` set (current # q)"
    proof (cases "x \<in> set q")
      case True
      then show ?thesis using xy by auto
    next
      case False
      then have "(current, x) \<in> ?R" using x q1 sn by auto
      then have "(current, y) \<in> ?R\<^sup>*" using xy by (rule converse_rtrancl_into_rtrancl)
      then show ?thesis by auto
    qed
  qed
  have b: "V' \<subseteq> V \<union> ?R\<^sup>* `` set (current # q)"
    using ih(2) V1 r1 r2 by blast
  have d: "set C' = set C \<union> set (current # q) \<union> (V' - V)"
    using ih(4) ih(1) V1 q1 sn by auto
  show ?case using a b ih(3) d ih(5) by blast
qed

lemma sym_class_eq:
  assumes "sym R" and "(v, u) \<in> R\<^sup>*"
  shows "R\<^sup>* `` {u} = R\<^sup>* `` {v}"
proof -
  have "(u, v) \<in> R\<^sup>*" using assms by (meson sym_rtrancl symD)
  then show ?thesis using assms(2) by (auto intro: rtrancl_trans)
qed

lemma closed_class_disjoint:
  assumes "sym R" and "R `` V \<subseteq> V" and "u \<notin> V"
  shows "R\<^sup>* `` {u} \<inter> V = {}"
proof (rule ccontr)
  assume "R\<^sup>* `` {u} \<inter> V \<noteq> {}"
  then obtain y where y: "(u, y) \<in> R\<^sup>*" "y \<in> V" by auto
  then have "(y, u) \<in> R\<^sup>*" using assms(1) by (meson sym_rtrancl symD)
  then have "u \<in> R\<^sup>* `` V" using y(2) by auto
  then show False using assms(2,3) by (simp add: Image_closed_trancl)
qed

lemma bfs_component:
  assumes "rowsEnumerated ro adj"
    and "bfs ro m adj [u] (insert u V) [] = (C', V')"
    and "sym (strong m adj)" and "strong m adj `` V \<subseteq> V" and "u \<notin> V"
  shows "V' = V \<union> (strong m adj)\<^sup>* `` {u}" and "strong m adj `` V' \<subseteq> V'"
    and "set C' = (strong m adj)\<^sup>* `` {u}" and "distinct C'"
proof -
  let ?R = "strong m adj"
  have pre: "?R `` (insert u V - set [u]) \<subseteq> insert u V"
    using assms(4,5) by auto
  from bfs_spec[OF assms(1,2) _ pre]
  have s: "insert u V \<subseteq> V'" "V' \<subseteq> insert u V \<union> ?R\<^sup>* `` {u}" "?R `` V' \<subseteq> V'"
    "set C' = {u} \<union> (V' - insert u V)" "distinct C'"
    by simp_all
  have "?R\<^sup>* `` V' = V'" using s(3) by (rule Image_closed_trancl)
  then have sup: "?R\<^sup>* `` {u} \<subseteq> V'" using s(1) by blast
  show v: "V' = V \<union> ?R\<^sup>* `` {u}" using s(1,2) sup by auto
  show "?R `` V' \<subseteq> V'" by (rule s(3))
  show "distinct C'" by (rule s(5))
  have "?R\<^sup>* `` {u} \<inter> V = {}" using assms(3,4,5) by (rule closed_class_disjoint)
  then show "set C' = ?R\<^sup>* `` {u}" using s(4) v by auto
qed

lemma big_classes_Un: "big_classes m adj (A \<union> B) = big_classes m adj A \<union> big_classes m adj B"
  by (auto simp: big_classes_def)

lemma big_classes_single:
  "big_classes m adj {u} = (if 2 \<le> card (cls m adj u) then {cls m adj u} else {})"
  by (auto simp: big_classes_def)

lemma big_classes_within:
  assumes "sym (strong m adj)" and "X \<subseteq> cls m adj u"
  shows "big_classes m adj X \<subseteq> big_classes m adj {u}"
proof
  fix Y assume "Y \<in> big_classes m adj X"
  then obtain v where v: "v \<in> X" "Y = cls m adj v" "2 \<le> card Y"
    by (auto simp: big_classes_def)
  from v(1) assms(2) have "(u, v) \<in> (strong m adj)\<^sup>*" by (auto simp: cls_def)
  then have "cls m adj v = cls m adj u"
    unfolding cls_def by (rule sym_class_eq[OF assms(1)])
  then show "Y \<in> big_classes m adj {u}" using v by (simp add: big_classes_def)
qed

lemma components_step:
  assumes "rowsEnumerated ro adj" and "sym (strong m adj)" and "strong m adj `` V \<subseteq> V" and "user \<notin> V"
    and b: "bfs ro m adj [user] (insert user V) [] = (C', V')"
  shows "set (map set (if 2 \<le> length C' then Cs @ [C'] else Cs))
           \<union> big_classes m adj (set rest - V')
         = set (map set Cs) \<union> big_classes m adj (set (user # rest) - V)"
proof -
  note c = bfs_component[OF assms(1) b assms(2,3,4)]
  have C': "set C' = cls m adj user" using c(3) by (simp add: cls_def)
  have V': "V' = V \<union> cls m adj user" using c(1) by (simp add: cls_def)
  have len: "2 \<le> length C' \<longleftrightarrow> 2 \<le> card (cls m adj user)"
    using C' c(4) distinct_card[of C'] by simp
  have l: "set (map set (if 2 \<le> length C' then Cs @ [C'] else Cs))
            = set (map set Cs) \<union> big_classes m adj {user}"
    using len C' by (simp add: big_classes_single)
  have split: "set (user # rest) - V = {user} \<union> (set rest - V') \<union> ((set rest - V) \<inter> cls m adj user)"
    using assms(4) V' by auto
  have w: "big_classes m adj ((set rest - V) \<inter> cls m adj user) \<subseteq> big_classes m adj {user}"
    by (rule big_classes_within[OF assms(2)]) simp
  have "big_classes m adj (set (user # rest) - V)
          = big_classes m adj {user} \<union> big_classes m adj (set rest - V')"
    unfolding split big_classes_Un using w by blast
  then show ?thesis unfolding l by blast
qed

lemma components_spec:
  assumes "rowsEnumerated ro adj" and "sym (strong m adj)" and "strong m adj `` V \<subseteq> V"
  shows "set (map set (components ro m adj us V Cs)) =
           set (map set Cs) \<union> big_classes m adj (set us - V)"
  using assms(3)
proof (induction us arbitrary: V Cs)
  case Nil
  show ?case by (simp add: big_classes_def)
next
  case (Cons user rest)
  show ?case
  proof (cases "user \<in> V")
    case True
    then have "set (user # rest) - V = set rest - V" by auto
    then show ?thesis using True Cons.IH[OF Cons.prems, of Cs] by simp
  next
    case False
    obtain C' V' where b: "bfs ro m adj [user] (insert user V) [] = (C', V')" by force
    have closed: "strong m adj `` V' \<subseteq> V'"
      by (rule bfs_component(2)[OF assms(1) b assms(2) Cons.prems False])
    have step: "components ro m adj (user # rest) V Cs
                  = components ro m adj rest V' (if 2 \<le> length C' then Cs @ [C'] else Cs)"
      using False b by simp
    show ?thesis
      unfolding step Cons.IH[OF closed]
      by (rule components_step[OF assms(1,2) Cons.prems False b])
  qed
qed

text \<open>The outer loop appends a community when it meets its first member: the first
  members of the communities follow the enumeration of the keys.\<close>

lemma components_firsts:
  "\<exists>new. components ro m adj us V Cs = Cs @ new \<and> subseq (map hd new) us"
proof (induction us arbitrary: V Cs)
  case Nil
  show ?case by simp
next
  case (Cons user rest)
  show ?case
  proof (cases "user \<in> V")
    case True
    from Cons.IH[of V Cs] obtain new
      where "components ro m adj rest V Cs = Cs @ new" and "subseq (map hd new) rest" by blast
    with True show ?thesis by auto
  next
    case False
    obtain C' V' where b: "bfs ro m adj [user] (insert user V) [] = (C', V')" by force
    from bfs_prefix[OF b] obtain more where C': "C' = user # more" by auto
    have step: "components ro m adj (user # rest) V Cs
                  = components ro m adj rest V' (if 2 \<le> length C' then Cs @ [C'] else Cs)"
      using False b by simp
    show ?thesis
    proof (cases "2 \<le> length C'")
      case True
      from Cons.IH[of V' "Cs @ [C']"] obtain new
        where n: "components ro m adj rest V' (Cs @ [C']) = (Cs @ [C']) @ new"
          and s: "subseq (map hd new) rest" by blast
      have "components ro m adj (user # rest) V Cs = Cs @ (C' # new)"
        unfolding step using True n by simp
      moreover have "subseq (map hd (C' # new)) (user # rest)" using s C' by simp
      ultimately show ?thesis by blast
    next
      case short: False
      from Cons.IH[of V' Cs] obtain new
        where n: "components ro m adj rest V' Cs = Cs @ new"
          and s: "subseq (map hd new) rest" by blast
      have "components ro m adj (user # rest) V Cs = Cs @ new"
        unfolding step using short n by simp
      moreover have "subseq (map hd new) (user # rest)" using s by auto
      ultimately show ?thesis by blast
    qed
  qed
qed

text \<open>Each community starts with the first of its members that the enumeration lists.\<close>

lemma find_first_member:
  assumes "\<And>x. x \<in> set done \<Longrightarrow> x \<notin> X" and "user \<in> X"
  shows "List.find (\<lambda>u. u \<in> X) (done @ user # rest) = Some user"
  using assms by (induction "done") simp_all

lemma components_heads:
  assumes "rowsEnumerated ro adj" and "sym (strong m adj)"
    and "strong m adj `` V \<subseteq> V" and "set done \<subseteq> V"
    and "\<forall>C \<in> set Cs. List.find (\<lambda>u. u \<in> set C) (done @ us) = Some (hd C)"
  shows "\<forall>C \<in> set (components ro m adj us V Cs).
           List.find (\<lambda>u. u \<in> set C) (done @ us) = Some (hd C)"
  using assms(3-)
proof (induction us arbitrary: V Cs "done")
  case Nil
  then show ?case by simp
next
  case (Cons user rest)
  have full: "done @ user # rest = (done @ [user]) @ rest" by simp
  show ?case
  proof (cases "user \<in> V")
    case True
    have "\<forall>C \<in> set (components ro m adj rest V Cs).
            List.find (\<lambda>u. u \<in> set C) ((done @ [user]) @ rest) = Some (hd C)"
      using Cons.prems True by (intro Cons.IH) simp_all
    with True show ?thesis by simp
  next
    case False
    obtain C' V' where b: "bfs ro m adj [user] (insert user V) [] = (C', V')" by force
    note c = bfs_component[OF assms(1) b assms(2) Cons.prems(1) False]
    from bfs_prefix[OF b] obtain more where C': "C' = user # more" by auto
    have disj: "(strong m adj)\<^sup>* `` {user} \<inter> V = {}"
      using assms(2) Cons.prems(1) False by (rule closed_class_disjoint)
    have "List.find (\<lambda>u. u \<in> set C') (done @ user # rest) = Some user"
    proof (rule find_first_member)
      show "x \<notin> set C'" if "x \<in> set done" for x
        using that Cons.prems(2) disj c(3) by auto
      show "user \<in> set C'" using C' by simp
    qed
    then have new: "List.find (\<lambda>u. u \<in> set C') ((done @ [user]) @ rest) = Some (hd C')"
      using C' by simp
    have step: "components ro m adj (user # rest) V Cs
                  = components ro m adj rest V' (if 2 \<le> length C' then Cs @ [C'] else Cs)"
      using False b by simp
    have "\<forall>C \<in> set (components ro m adj rest V' (if 2 \<le> length C' then Cs @ [C'] else Cs)).
            List.find (\<lambda>u. u \<in> set C) ((done @ [user]) @ rest) = Some (hd C)"
    proof (rule Cons.IH)
      show "strong m adj `` V' \<subseteq> V'" by (rule c(2))
      show "set (done @ [user]) \<subseteq> V'" using Cons.prems(2) c(1) by auto
      show "\<forall>C \<in> set (if 2 \<le> length C' then Cs @ [C'] else Cs).
              List.find (\<lambda>u. u \<in> set C) ((done @ [user]) @ rest) = Some (hd C)"
        using Cons.prems(3) new by simp
    qed
    then show ?thesis unfolding step by simp
  qed
qed

lemma detectCommunities_firsts:
  "subseq (map hd (detectCommunities ord g m)) (keyOrder ord)"
  using components_firsts[of "rowOrder ord" m "adjacency g" "keyOrder ord" "{}" "[]"]
  by (auto simp: detectCommunities_def)

text \<open>The edges that the search follows, read off the co-vote counts.\<close>

lemma weight_symmetric_addVotes:
  "weight (adjacency (addVotes vs)) x y = weight (adjacency (addVotes vs)) y x"
proof (induction vs arbitrary: x y rule: rev_induct)
  case Nil
  show ?case by (simp add: addVotes_def emptyGraph_def weight_def)
next
  case (snoc a vs)
  obtain w p where a: "a = (w, p)" by (cases a)
  have "getCoVoteCount (addVote (addVotes vs) w p) x y = getCoVoteCount (addVote (addVotes vs) w p) y x"
    by (rule addVote_symmetric) (simp add: getCoVoteCount_weight snoc.IH)
  then show ?case unfolding a addVotes_snoc by (simp add: getCoVoteCount_weight)
qed

lemma strong_weight:
  assumes "1 \<le> m"
  shows "strong m adj = {(x, y). m \<le> weight adj x y}"
proof (rule set_eqI, clarify)
  fix x y
  show "(x, y) \<in> strong m adj \<longleftrightarrow> (x, y) \<in> {(x, y). m \<le> weight adj x y}"
  proof
    assume "(x, y) \<in> strong m adj"
    then obtain row c where r: "map_of adj x = Some row" "map_of row y = Some c" "m \<le> c"
      by (auto simp: strong_def)
    then show "(x, y) \<in> {(x, y). m \<le> weight adj x y}" by (simp add: weight_def)
  next
    assume "(x, y) \<in> {(x, y). m \<le> weight adj x y}"
    then have w: "m \<le> weight adj x y" by simp
    with assms have pos: "0 < weight adj x y" by simp
    then obtain row where row: "map_of adj x = Some row"
      by (cases "map_of adj x") (simp_all add: weight_def)
    with pos obtain c where c: "map_of row y = Some c"
      by (cases "map_of row y") (simp_all add: weight_def)
    from row c w have "m \<le> c" by (simp add: weight_def)
    with row c show "(x, y) \<in> strong m adj" by (auto simp: strong_def)
  qed
qed

lemma strong_coVoteRel:
  assumes "1 \<le> m"
  shows "strong m (adjacency g) = coVoteRel g m"
  using strong_weight[OF assms, of "adjacency g"]
  by (simp add: coVoteRel_def getCoVoteCount_weight)

lemma sym_coVoteRel: "sym (coVoteRel (addVotes vs) m)"
  unfolding coVoteRel_def getCoVoteCount_weight
  by (rule symI) (simp add: weight_symmetric_addVotes[of vs])

lemma big_class_has_row:
  assumes "2 \<le> card (cls m adj u)"
  shows "u \<in> fst ` set adj"
proof -
  have "cls m adj u \<noteq> {u}"
  proof
    assume "cls m adj u = {u}"
    then have "card (cls m adj u) = 1" by simp
    with assms show False by simp
  qed
  moreover have "u \<in> cls m adj u" by (simp add: cls_def)
  ultimately obtain y where y: "y \<in> cls m adj u" "y \<noteq> u" by blast
  then have "(u, y) \<in> (strong m adj)\<^sup>*" by (simp add: cls_def)
  with y(2) obtain z where "(u, z) \<in> strong m adj" by (auto elim: converse_rtranclE)
  then obtain row where "map_of adj u = Some row" by (auto simp: strong_def)
  then have "(u, row) \<in> set adj" by (rule map_of_SomeD)
  then show ?thesis by force
qed

lemma big_classes_keys:
  assumes "set ks = set (map fst adj)"
  shows "big_classes m adj (set ks - {}) = big_classes m adj UNIV"
proof
  show "big_classes m adj (set ks - {}) \<subseteq> big_classes m adj UNIV"
    unfolding big_classes_def by blast
  show "big_classes m adj UNIV \<subseteq> big_classes m adj (set ks - {})"
  proof
    fix X assume "X \<in> big_classes m adj UNIV"
    then obtain u where u: "X = cls m adj u" "2 \<le> card X" unfolding big_classes_def by blast
    then have "u \<in> fst ` set adj" using big_class_has_row[of m adj u] by simp
    then have "u \<in> set ks - {}" using assms by simp
    with u show "X \<in> big_classes m adj (set ks - {})"
      unfolding big_classes_def by blast
  qed
qed

text \<open>In a graph built by \<^verbatim>\<open>addVote\<close> calls the detected communities, as sets of
  members, are the classes with at least two members of the relation "at least \<open>m\<close>
  co-votes": the co-vote counts alone determine them, whatever the enumeration.\<close>

lemma communities_by_weights:
  assumes "enumerates ord (addVotes vs)" and "1 \<le> m"
  shows "set (map set (detectCommunities ord (addVotes vs) m))
           = {X. \<exists>u. X = (coVoteRel (addVotes vs) m)\<^sup>* `` {u} \<and> 2 \<le> card X}"
proof -
  let ?adj = "adjacency (addVotes vs)"
  have ks: "set (keyOrder ord) = set (map fst ?adj)"
    and ro: "rowsEnumerated (rowOrder ord) ?adj"
    using assms(1) by (simp_all add: enumerates_def)
  have s: "strong m ?adj = coVoteRel (addVotes vs) m" using assms(2) by (rule strong_coVoteRel)
  have sym: "sym (strong m ?adj)" unfolding s by (rule sym_coVoteRel)
  have "set (map set (components (rowOrder ord) m ?adj (keyOrder ord) {} []))
          = set (map set []) \<union> big_classes m ?adj (set (keyOrder ord) - {})"
    by (rule components_spec[OF ro sym]) simp
  then have "set (map set (detectCommunities ord (addVotes vs) m)) = big_classes m ?adj UNIV"
    by (simp only: big_classes_keys[OF ks] detectCommunities_def) simp
  also have "\<dots> = {X. \<exists>u. X = (coVoteRel (addVotes vs) m)\<^sup>* `` {u} \<and> 2 \<le> card X}"
    unfolding big_classes_def cls_def s by blast
  finally show ?thesis .
qed

lemma communities_first_member:
  assumes "enumerates ord (addVotes vs)" and "1 \<le> m"
  shows "\<forall>C \<in> set (detectCommunities ord (addVotes vs) m).
           List.find (\<lambda>u. u \<in> set C) (keyOrder ord) = Some (hd C)"
proof -
  let ?adj = "adjacency (addVotes vs)"
  have ro: "rowsEnumerated (rowOrder ord) ?adj"
    using assms(1) by (simp add: enumerates_def)
  have s: "strong m ?adj = coVoteRel (addVotes vs) m" using assms(2) by (rule strong_coVoteRel)
  have sym: "sym (strong m ?adj)" unfolding s by (rule sym_coVoteRel)
  have "\<forall>C \<in> set (components (rowOrder ord) m ?adj (keyOrder ord) {} []).
          List.find (\<lambda>u. u \<in> set C) ([] @ keyOrder ord) = Some (hd C)"
    by (rule components_heads[OF ro sym]) simp_all
  then show ?thesis by (simp add: detectCommunities_def)
qed

lemma order_votes_adjacency:
  "adjacency (addVotes [(''a'', ''p1''), (''b'', ''p1''), (''c'', ''p2''), (''d'', ''p2'')])
    = [(''b'', [(''a'', 1)]), (''a'', [(''b'', 1)]), (''d'', [(''c'', 1)]), (''c'', [(''d'', 1)])]"
  "adjacency (addVotes [(''c'', ''p2''), (''d'', ''p2''), (''a'', ''p1''), (''b'', ''p1'')])
    = [(''d'', [(''c'', 1)]), (''c'', [(''d'', 1)]), (''b'', [(''a'', 1)]), (''a'', [(''b'', 1)])]"
  by code_simp+

lemma order_votes_same_rows:
  "map_of (adjacency (addVotes [(''a'', ''p1''), (''b'', ''p1''), (''c'', ''p2''), (''d'', ''p2'')]))
     = map_of (adjacency (addVotes [(''c'', ''p2''), (''d'', ''p2''), (''a'', ''p1''), (''b'', ''p1'')]))"
  unfolding order_votes_adjacency by (rule ext) simp

lemma order_votes_enumerated:
  "enumerates pairsOrderAB
     (addVotes [(''a'', ''p1''), (''b'', ''p1''), (''c'', ''p2''), (''d'', ''p2'')])"
  "enumerates pairsOrderCD
     (addVotes [(''c'', ''p2''), (''d'', ''p2''), (''a'', ''p1''), (''b'', ''p1'')])"
  by (auto simp: enumerates_def rowsEnumerated_def order_votes_adjacency pairsOrderAB_def
      pairsOrderCD_def partner_def split: if_splits)

lemma order_votes_detect:
  "detectCommunities pairsOrderAB
     (addVotes [(''a'', ''p1''), (''b'', ''p1''), (''c'', ''p2''), (''d'', ''p2'')]) 1
     = [[''c'', ''d''], [''a'', ''b'']]"
  "detectCommunities pairsOrderCD
     (addVotes [(''c'', ''p2''), (''d'', ''p2''), (''a'', ''p1''), (''b'', ''p1'')]) 1
     = [[''b'', ''a''], [''c'', ''d'']]"
  by (simp_all add: detectCommunities_def order_votes_adjacency visitNeighbors_def
      visitNeighbor_def pairsOrderAB_def pairsOrderCD_def partner_def)

text \<open>
  \<^bold>\<open>C5\<close> (as the code has it). For a graph built by \<^verbatim>\<open>addVote\<close> calls and a threshold
  of at least 1, the set of detected communities (each as a set of members) is determined
  by the co-vote counts, whatever the order in which the hash tables enumerate their keys.
  The order of the list is not an order of the user identifiers but that of the
  enumeration of the keys of \<^verbatim>\<open>adjacency\<close>: each community starts with the first of
  its members that the enumeration lists, and the communities are listed in the order of
  these first members.
\<close>

theorem detectCommunities_sets_and_order:
  assumes "enumerates ord (addVotes vs)" and "1 \<le> m"
  shows "set (map set (detectCommunities ord (addVotes vs) m))
           = {X. \<exists>u. X = (coVoteRel (addVotes vs) m)\<^sup>* `` {u} \<and> 2 \<le> card X}
    \<and> subseq (map hd (detectCommunities ord (addVotes vs) m)) (keyOrder ord)
    \<and> (\<forall>C \<in> set (detectCommunities ord (addVotes vs) m).
          List.find (\<lambda>u. u \<in> set C) (keyOrder ord) = Some (hd C))"
  using communities_by_weights[OF assms] detectCommunities_firsts
    communities_first_member[OF assms]
  by simp

theorem detectCommunities_sets_and_order_witness:
  "enumerates pairsOrderAB
     (addVotes [(''a'', ''p1''), (''b'', ''p1''), (''c'', ''p2''), (''d'', ''p2'')])
   \<and> enumerates pairsOrderCD
     (addVotes [(''c'', ''p2''), (''d'', ''p2''), (''a'', ''p1''), (''b'', ''p1'')])
   \<and> (1::int) \<le> 1
   \<and> set (map set (detectCommunities pairsOrderAB
        (addVotes [(''a'', ''p1''), (''b'', ''p1''), (''c'', ''p2''), (''d'', ''p2'')]) 1))
     = set (map set (detectCommunities pairsOrderCD
        (addVotes [(''c'', ''p2''), (''d'', ''p2''), (''a'', ''p1''), (''b'', ''p1'')]) 1))
   \<and> subseq (map hd (detectCommunities pairsOrderAB
        (addVotes [(''a'', ''p1''), (''b'', ''p1''), (''c'', ''p2''), (''d'', ''p2'')]) 1))
       [''c'', ''d'', ''a'', ''b'']"
proof -
  let ?v1 = "[(''a'', ''p1''), (''b'', ''p1''), (''c'', ''p2''), (''d'', ''p2'')]"
  let ?v2 = "[(''c'', ''p2''), (''d'', ''p2''), (''a'', ''p1''), (''b'', ''p1'')]"
  have one: "(1::int) \<le> 1" by simp
  have "getCoVoteCount (addVotes ?v1) x y = getCoVoteCount (addVotes ?v2) x y" for x y
    by (simp only: getCoVoteCount_def order_votes_same_rows)
  then have r: "coVoteRel (addVotes ?v1) 1 = coVoteRel (addVotes ?v2) 1"
    by (simp add: coVoteRel_def)
  have k: "keyOrder pairsOrderAB = [''c'', ''d'', ''a'', ''b'']"
    by (simp add: pairsOrderAB_def)
  note t1 = detectCommunities_sets_and_order[OF order_votes_enumerated(1) one]
  note t2 = detectCommunities_sets_and_order[OF order_votes_enumerated(2) one]
  have "set (map set (detectCommunities pairsOrderAB (addVotes ?v1) 1))
     = set (map set (detectCommunities pairsOrderCD (addVotes ?v2) 1))"
    using t1[THEN conjunct1] t2[THEN conjunct1] unfolding r by simp
  moreover have "subseq (map hd (detectCommunities pairsOrderAB (addVotes ?v1) 1))
       [''c'', ''d'', ''a'', ''b'']"
    using t1[THEN conjunct2, THEN conjunct1] unfolding k .
  ultimately show ?thesis using order_votes_enumerated one by (intro conjI)
qed

text \<open>
  The claim as stated fails when the graph state is what the queries observe: the votes
  (a, p1), (b, p1), (c, p2), (d, p2) and the same votes with the two proposals swapped in
  time give the same voter sets and the same co-vote counts, but the hash table enumerates
  the keys in another order: the communities are listed in a different order, with their
  members in a different order, and in neither case sorted by user identifier.
\<close>

theorem detectCommunities_order_counterexample:
  "map_of (adjacency (addVotes [(''a'', ''p1''), (''b'', ''p1''), (''c'', ''p2''), (''d'', ''p2'')]))
     = map_of (adjacency (addVotes [(''c'', ''p2''), (''d'', ''p2''), (''a'', ''p1''), (''b'', ''p1'')]))
   \<and> proposalVoters (addVotes [(''a'', ''p1''), (''b'', ''p1''), (''c'', ''p2''), (''d'', ''p2'')])
     = proposalVoters (addVotes [(''c'', ''p2''), (''d'', ''p2''), (''a'', ''p1''), (''b'', ''p1'')])
   \<and> detectCommunities pairsOrderAB
        (addVotes [(''a'', ''p1''), (''b'', ''p1''), (''c'', ''p2''), (''d'', ''p2'')]) 1
       = [[''c'', ''d''], [''a'', ''b'']]
   \<and> detectCommunities pairsOrderCD
        (addVotes [(''c'', ''p2''), (''d'', ''p2''), (''a'', ''p1''), (''b'', ''p1'')]) 1
       = [[''b'', ''a''], [''c'', ''d'']]"
proof -
  have p: "proposalVoters (addVotes [(''a'', ''p1''), (''b'', ''p1''), (''c'', ''p2''), (''d'', ''p2'')])
     = proposalVoters (addVotes [(''c'', ''p2''), (''d'', ''p2''), (''a'', ''p1''), (''b'', ''p1'')])"
    by (rule ext) (simp add: addVotes_def addVote_def emptyGraph_def set_insert_def Let_def)
  show ?thesis using order_votes_same_rows p order_votes_detect by (intro conjI)
qed

end
